theory Spec2Isabelle
  imports Main
begin

section \<open>Data model of \<^verbatim>\<open>src/App.tsx\<close>\<close>

text \<open>
  A \<^verbatim>\<open>Tile\<close> is the tagged union \<^verbatim>\<open>BombTile | NumberTile | EmptyTile\<close>; every variant
  carries the field \<^verbatim>\<open>index\<close>. The discriminators stand for the tests
  \<^verbatim>\<open>tile.type === 'bomb'\<close>, \<^verbatim>\<open>'number'\<close> and \<^verbatim>\<open>'empty'\<close>.
\<close>

datatype tile =
    is_bomb: BombTile (index: nat)
  | is_number: NumberTile (index: nat) (adjacentBombs: nat)
  | is_empty: EmptyTile (index: nat)

record tileState =
  isOpen :: bool
  isFlagged :: bool

text \<open>
  The props \<^verbatim>\<open>width\<close> and \<^verbatim>\<open>height\<close> of \<^verbatim>\<open>GameGrid\<close> together with its state \<^verbatim>\<open>tiles\<close>.
  The second piece of state, \<^verbatim>\<open>tileStates\<close>, is passed to every operation and returned
  updated. JavaScript numbers are modelled as integers.
\<close>

record board =
  width :: int
  height :: int
  tiles :: "tile list"

text \<open>
  Reading a property of \<^verbatim>\<open>undefined\<close> (an array read out of range followed by
  \<^verbatim>\<open>.isOpen\<close>, \<^verbatim>\<open>.isFlagged\<close> or \<^verbatim>\<open>.type\<close>) throws a \<^verbatim>\<open>TypeError\<close>;
  \<^verbatim>\<open>Array(n)\<close> with a negative \<^verbatim>\<open>n\<close> throws a \<^verbatim>\<open>RangeError\<close>.
\<close>

datatype error = TypeError | RangeError

text \<open>
  \<^verbatim>\<open>Array(width * height).fill({ isOpen: false, isFlagged: false })\<close> (lines 239-247).
\<close>

definition initialTileStates :: "int \<Rightarrow> int \<Rightarrow> tileState list" where
  "initialTileStates w h = replicate (nat (w * h)) \<lparr>isOpen = False, isFlagged = False\<rparr>"

section \<open>The neighbourhood loops\<close>

text \<open>
  Both \<^verbatim>\<open>countAdjacentBombs\<close> (lines 290-303) and \<^verbatim>\<open>cascade\<close> (lines 338-354) run
  \<^verbatim>\<open>for i in -1..1, for j in -1..1\<close> over \<^verbatim>\<open>row = Math.floor(idx / width)\<close>,
  \<^verbatim>\<open>col = idx % width\<close> and act on \<^verbatim>\<open>newRow * width + newCol\<close> when the bounds test
  passes. The test does not read any state, so the indices that pass it are collected
  first, in loop order; the centre \<^verbatim>\<open>i = j = 0\<close> is among them, as in the source.
  For \<^verbatim>\<open>idx \<ge> 0\<close> and \<^verbatim>\<open>width > 0\<close>, \<open>div\<close> and \<open>mod\<close> are \<^verbatim>\<open>Math.floor(idx / width)\<close>
  and \<^verbatim>\<open>idx % width\<close>; for \<^verbatim>\<open>width \<le> 0\<close> the test \<^verbatim>\<open>newCol >= 0 && newCol < width\<close>
  fails in the source and here alike.
\<close>

definition neighbours :: "int \<Rightarrow> int \<Rightarrow> int \<Rightarrow> int list" where
  "neighbours w h idx =
     (let row = idx div w; col = idx mod w in
      concat (map (\<lambda>i. concat (map (\<lambda>j.
        (let newRow = row + i; newCol = col + j in
         if newRow \<ge> 0 \<and> newRow < h \<and> newCol \<ge> 0 \<and> newCol < w
         then [newRow * w + newCol] else [])) [-1, 0, 1])) [-1, 0, 1]))"

section \<open>Board generation\<close>

text \<open>
  \<^verbatim>\<open>countAdjacentBombs\<close> (lines 289-305). \<^verbatim>\<open>positions[newIndex].type\<close> throws when
  \<^verbatim>\<open>newIndex\<close> is outside the array.
\<close>

fun countBombsAt :: "tile list \<Rightarrow> int list \<Rightarrow> nat \<Rightarrow> error + nat" where
  "countBombsAt positions [] count = Inr count"
| "countBombsAt positions (newIndex # rest) count =
     (if 0 \<le> newIndex \<and> nat newIndex < length positions
      then countBombsAt positions rest
             (if is_bomb (positions ! nat newIndex) then count + 1 else count)
      else Inl TypeError)"

definition countAdjacentBombs :: "int \<Rightarrow> int \<Rightarrow> nat \<Rightarrow> tile list \<Rightarrow> error + nat" where
  "countAdjacentBombs w h idx positions = countBombsAt positions (neighbours w h (int idx)) 0"

text \<open>
  The bomb-placing loop (lines 259-269). The values of \<^verbatim>\<open>randomIndex\<close>, that is of
  \<^verbatim>\<open>Math.floor(Math.random() * positions.length)\<close>, are a parameter: the list \<open>draws\<close>.
  The loop has no bound of its own; the result is \<open>None\<close> when the draws are used up
  before \<^verbatim>\<open>bombsPlaced\<close> reaches \<^verbatim>\<open>numBoms\<close>. A draw outside the array (in the source
  only the draw \<open>0\<close> on an empty array) makes \<^verbatim>\<open>positions[randomIndex].type\<close> throw.
\<close>

fun placeBombs :: "tile list \<Rightarrow> int \<Rightarrow> int \<Rightarrow> nat list \<Rightarrow> (error + tile list) option" where
  "placeBombs positions bombsPlaced numBoms [] =
     (if bombsPlaced < numBoms then None else Some (Inr positions))"
| "placeBombs positions bombsPlaced numBoms (randomIndex # draws) =
     (if bombsPlaced < numBoms then
        (if randomIndex < length positions then
           (if is_empty (positions ! randomIndex)
            then placeBombs (positions[randomIndex := BombTile randomIndex])
                   (bombsPlaced + 1) numBoms draws
            else placeBombs positions bombsPlaced numBoms draws)
         else Some (Inl TypeError))
      else Some (Inr positions))"

text \<open>The final \<^verbatim>\<open>positions.map\<close> (lines 272-286), one tile at a time.\<close>

definition numberTile :: "int \<Rightarrow> int \<Rightarrow> tile list \<Rightarrow> nat \<Rightarrow> error + tile" where
  "numberTile w h positions idx =
     (if is_bomb (positions ! idx) then Inr (positions ! idx)
      else (case countAdjacentBombs w h idx positions of
              Inl e \<Rightarrow> Inl e
            | Inr adjacent \<Rightarrow>
                Inr (if adjacent > 0 then NumberTile idx adjacent else EmptyTile idx)))"

fun calculateNumbers :: "int \<Rightarrow> int \<Rightarrow> tile list \<Rightarrow> nat list \<Rightarrow> error + tile list" where
  "calculateNumbers w h positions [] = Inr []"
| "calculateNumbers w h positions (idx # rest) =
     (case numberTile w h positions idx of
        Inl e \<Rightarrow> Inl e
      | Inr t \<Rightarrow> (case calculateNumbers w h positions rest of
                    Inl e \<Rightarrow> Inl e
                  | Inr ts \<Rightarrow> Inr (t # ts)))"

text \<open>\<^verbatim>\<open>generateInitialGrid\<close> (lines 250-287).\<close>

definition generateInitialGrid :: "int \<Rightarrow> int \<Rightarrow> int \<Rightarrow> nat list \<Rightarrow> (error + tile list) option" where
  "generateInitialGrid w h numBoms draws =
     (if w * h < 0 then Some (Inl RangeError)
      else (case placeBombs (map EmptyTile [0..<nat (w * h)]) 0 numBoms draws of
              None \<Rightarrow> None
            | Some (Inl e) \<Rightarrow> Some (Inl e)
            | Some (Inr positions) \<Rightarrow>
                Some (calculateNumbers w h positions [0..<length positions])))"

section \<open>Uncovering a tile\<close>

text \<open>
  The two \<^verbatim>\<open>tiles.forEach\<close> loops (lines 315-319 and 368-372) write
  \<^verbatim>\<open>newTileStates[i] = { ...newTileStates[i], field: true }\<close> at every bomb. The state
  array is allocated with as many entries as \<^verbatim>\<open>tiles\<close> (lines 238-248), and on such an
  array the list update is the write of the source. For a shorter one, which the
  component never holds, the source would append an object without \<^verbatim>\<open>isFlagged\<close>, which
  is no \<^verbatim>\<open>TileState\<close>, while the list update leaves the list as it is: there the
  definition is not the source.
\<close>

definition forEachBomb :: "(tileState \<Rightarrow> tileState) \<Rightarrow> tile list \<Rightarrow> tileState list \<Rightarrow> tileState list" where
  "forEachBomb f ts newTileStates =
     fold (\<lambda>i acc. if is_bomb (ts ! i) then acc[i := f (acc ! i)] else acc)
       [0..<length ts] newTileStates"

text \<open>
  \<^verbatim>\<open>cascade\<close> (lines 326-356). The closure mutates \<^verbatim>\<open>newTileStates\<close>; here the array is
  passed in and returned. \<open>cascadeEach\<close> is the pair of \<^verbatim>\<open>for\<close> loops, calling
  \<^verbatim>\<open>cascade\<close> on each in-bounds neighbour in turn with the array left by the call before.

  The calls of \<^verbatim>\<open>cascade\<close> nest, one inside the loops of the other, and the source has no
  work-list: every call that has not returned holds a frame of the engine's call stack.
  \<open>frames\<close> is the number of calls of \<^verbatim>\<open>cascade\<close> the stack still has room for. With no
  room left the call throws \<^verbatim>\<open>RangeError: Maximum call stack size exceeded\<close>, which
  nothing catches; the loops run in the frame of the call they belong to.
\<close>

fun cascade :: "nat \<Rightarrow> board \<Rightarrow> tileState list \<Rightarrow> int \<Rightarrow> error + tileState list"
  and cascadeEach :: "nat \<Rightarrow> board \<Rightarrow> tileState list \<Rightarrow> int list \<Rightarrow> error + tileState list" where
  "cascade 0 b newTileStates idx = Inl RangeError"
| "cascade (Suc frames) b newTileStates idx =
     (if idx < 0 \<or> idx \<ge> int (length (tiles b)) then Inr newTileStates
      else if \<not> nat idx < length newTileStates then Inl TypeError
      else if isOpen (newTileStates ! nat idx) \<or> is_bomb (tiles b ! nat idx)
        then Inr newTileStates
      else (let opened = newTileStates[nat idx := (newTileStates ! nat idx)\<lparr>isOpen := True\<rparr>]
            in if is_empty (tiles b ! nat idx)
               then cascadeEach frames b opened (neighbours (width b) (height b) idx)
               else Inr opened))"
| "cascadeEach frames b newTileStates [] = Inr newTileStates"
| "cascadeEach frames b newTileStates (n # ns) =
     (case cascade frames b newTileStates n of
        Inl e \<Rightarrow> Inl e
      | Inr s \<Rightarrow> cascadeEach frames b s ns)"

text \<open>The number of closed cells of a state array.\<close>

definition unopened :: "tileState list \<Rightarrow> nat" where
  "unopened ss = sum_list (map (\<lambda>s. if isOpen s then 0 else 1) ss)"

lemma unopened_open:
  "k < length ss \<Longrightarrow> \<not> isOpen (ss ! k) \<Longrightarrow>
   unopened (ss[k := (ss ! k)\<lparr>isOpen := True\<rparr>]) < unopened ss"
proof (induction ss arbitrary: k)
  case Nil
  then show ?case by simp
next
  case (Cons s ss)
  show ?case
  proof (cases k)
    case 0
    with Cons.prems show ?thesis by (simp add: unopened_def)
  next
    case (Suc j)
    with Cons.prems Cons.IH[of j] show ?thesis by (simp add: unopened_def)
  qed
qed

text \<open>
  The win check (lines 362-364):
  \<^verbatim>\<open>tiles.filter((t, i) => t.type !== 'bomb' && !newTileStates[i].isOpen).length\<close>.
  The callback throws at a tile that is no bomb and has no entry in \<^verbatim>\<open>newTileStates\<close>.
\<close>

definition unopenedNonBombs :: "tile list \<Rightarrow> tileState list \<Rightarrow> error + nat" where
  "unopenedNonBombs ts newTileStates =
     (if \<exists>i \<in> set [0..<length ts]. \<not> is_bomb (ts ! i) \<and> \<not> i < length newTileStates
      then Inl TypeError
      else Inr (length (filter (\<lambda>i. \<not> is_bomb (ts ! i) \<and> \<not> isOpen (newTileStates ! i))
                         [0..<length ts])))"

text \<open>
  \<^verbatim>\<open>uncoverTile\<close> (lines 307-376); \<open>frames\<close> is the room of the call stack at the call
  \<^verbatim>\<open>cascade(index)\<close> of line 358. The result is the array given to the last
  \<^verbatim>\<open>setTileStates\<close> (the unchanged \<^verbatim>\<open>tileStates\<close> when there is no such call) and the
  argument of \<^verbatim>\<open>onGameOver\<close>, \<open>None\<close> when it is not called. An exception thrown by
  the win check leaves the array set at line 359 behind; \<open>Inl\<close> does not carry it. An
  exception thrown inside \<^verbatim>\<open>cascade\<close> comes before any \<^verbatim>\<open>setTileStates\<close>: the marks made
  on the copy \<^verbatim>\<open>newTileStates\<close> are lost and the state array stays as it was.
\<close>

definition uncoverTile :: "nat \<Rightarrow> board \<Rightarrow> tileState list \<Rightarrow> int \<Rightarrow> error + (tileState list \<times> bool option)" where
  "uncoverTile frames b tileStates idx =
     (if \<not> (0 \<le> idx \<and> nat idx < length tileStates) then Inl TypeError
      else if isOpen (tileStates ! nat idx) then Inr (tileStates, None)
      else if \<not> nat idx < length (tiles b) then Inl TypeError
      else if is_bomb (tiles b ! nat idx)
        then Inr (forEachBomb (\<lambda>s. s\<lparr>isOpen := True\<rparr>) (tiles b) tileStates, Some False)
      else (case cascade frames b tileStates idx of
              Inl e \<Rightarrow> Inl e
            | Inr newTileStates \<Rightarrow>
                (case unopenedNonBombs (tiles b) newTileStates of
                   Inl e \<Rightarrow> Inl e
                 | Inr n \<Rightarrow>
                     if n = 0
                     then Inr (forEachBomb (\<lambda>s. s\<lparr>isFlagged := True\<rparr>) (tiles b) newTileStates,
                               Some True)
                     else Inr (newTileStates, None))))"

text \<open>
  \<^verbatim>\<open>toggleFlag\<close> (lines 378-387): the updater given to \<^verbatim>\<open>setTileStates\<close>, from the
  previous array to the next. It has no call of \<^verbatim>\<open>onGameOver\<close>.
\<close>

definition toggleFlag :: "tileState list \<Rightarrow> int \<Rightarrow> error + tileState list" where
  "toggleFlag prev idx =
     (if 0 \<le> idx \<and> nat idx < length prev
      then Inr (prev[nat idx := (prev ! nat idx)\<lparr>isFlagged := \<not> isFlagged (prev ! nat idx)\<rparr>])
      else Inl TypeError)"

text \<open>
  The outcome of the specification: \<^verbatim>\<open>onGameOver(true)\<close> is a win, \<^verbatim>\<open>onGameOver(false)\<close>
  a loss, and no call leaves the game in progress.
\<close>

datatype outcome = InProgress | Won | Lost

fun outcomeOf :: "bool option \<Rightarrow> outcome" where
  "outcomeOf None = InProgress"
| "outcomeOf (Some True) = Won"
| "outcomeOf (Some False) = Lost"

text \<open>
  A board with its state array as \<^verbatim>\<open>GameGrid\<close> allocates them: both of
  \<^verbatim>\<open>width * height\<close> entries, for a \<^verbatim>\<open>width\<close> and a \<^verbatim>\<open>height\<close> of at least one.
\<close>

definition wellFormed :: "board \<Rightarrow> tileState list \<Rightarrow> bool" where
  "wellFormed b ss \<longleftrightarrow>
     0 < width b \<and> 0 < height b \<and> length (tiles b) = nat (width b * height b)
     \<and> length ss = length (tiles b)"

section \<open>Example boards and the notions of the specification\<close>

text \<open>A board of two columns and one row with its bomb on the right.\<close>

definition board2x1 :: board where
  "board2x1 = \<lparr>width = 2, height = 1, tiles = [NumberTile 0 1, BombTile 1]\<rparr>"

text \<open>The same with its bomb on the left.\<close>

definition board2x1_left :: board where
  "board2x1_left = \<lparr>width = 2, height = 1, tiles = [BombTile 0, NumberTile 1 1]\<rparr>"

text \<open>A board of five columns and one row with its bomb at index 4.\<close>

definition board5x1 :: board where
  "board5x1 = \<lparr>width = 5, height = 1,
     tiles = [EmptyTile 0, EmptyTile 1, EmptyTile 2, NumberTile 3 1, BombTile 4]\<rparr>"

text \<open>What a caller sees of a call of \<^verbatim>\<open>uncoverTile\<close> apart from the flags.\<close>

definition revealedAndOutcome ::
  "error + (tileState list \<times> bool option) \<Rightarrow> error + (bool list \<times> bool option)" where
  "revealedAndOutcome res = map_sum id (\<lambda>(r, out). (map isOpen r, out)) res"

text \<open>
  \<^verbatim>\<open>cascade\<close> once more, with a log added to the source: the index is appended at
  line 335, where the cell is marked open, that is at every call that gets past the
  guard of lines 327-333. Nothing reads the log.
\<close>

fun cascadeLog :: "nat \<Rightarrow> board \<Rightarrow> tileState list \<times> int list \<Rightarrow> int \<Rightarrow> error + (tileState list \<times> int list)"
  and cascadeEachLog :: "nat \<Rightarrow> board \<Rightarrow> tileState list \<times> int list \<Rightarrow> int list \<Rightarrow> error + (tileState list \<times> int list)" where
  "cascadeLog 0 b st idx = Inl RangeError"
| "cascadeLog (Suc frames) b st idx =
     (if idx < 0 \<or> idx \<ge> int (length (tiles b)) then Inr st
      else if \<not> nat idx < length (fst st) then Inl TypeError
      else if isOpen (fst st ! nat idx) \<or> is_bomb (tiles b ! nat idx) then Inr st
      else (let opened = ((fst st)[nat idx := (fst st ! nat idx)\<lparr>isOpen := True\<rparr>], snd st @ [idx])
            in if is_empty (tiles b ! nat idx)
               then cascadeEachLog frames b opened (neighbours (width b) (height b) idx)
               else Inr opened))"
| "cascadeEachLog frames b st [] = Inr st"
| "cascadeEachLog frames b st (n # ns) =
     (case cascadeLog frames b st n of
        Inl e \<Rightarrow> Inl e
      | Inr s \<Rightarrow> cascadeEachLog frames b s ns)"

text \<open>
  The entries a run appends to the log: each index is in the range of both arrays, its
  cell is closed before the run and open after it, and no index comes twice.
\<close>

definition logged :: "board \<Rightarrow> tileState list \<times> int list \<Rightarrow> tileState list \<times> int list \<Rightarrow> bool" where
  "logged b st r \<longleftrightarrow>
     (\<exists>new. snd r = snd st @ new \<and> distinct new
        \<and> (\<forall>k \<in> set new. 0 \<le> k \<and> nat k < length (tiles b) \<and> nat k < length (fst st)
              \<and> \<not> isOpen (fst st ! nat k) \<and> isOpen (fst r ! nat k)))"

text \<open>
  The recount of the specification: the bombs among the eight cells around cell \<open>k\<close>,
  that is the block of three by three cells without its centre, where a cell off the
  grid does not count and no row wraps into the next.
\<close>

definition block3x3 :: "(int \<times> int) list" where
  "block3x3 = List.product [-1, 0, 1] [-1, 0, 1]"

definition recount :: "int \<Rightarrow> int \<Rightarrow> tile list \<Rightarrow> nat \<Rightarrow> nat" where
  "recount w h ts k =
     (let row = int k div w; col = int k mod w in
      length (filter (\<lambda>(dr, dc). (dr, dc) \<noteq> (0, 0)
                        \<and> 0 \<le> row + dr \<and> row + dr < h \<and> 0 \<le> col + dc \<and> col + dc < w
                        \<and> is_bomb (ts ! nat ((row + dr) * w + (col + dc))))
                block3x3))"

text \<open>The number of cells of kind bomb.\<close>

definition bombCount :: "tile list \<Rightarrow> nat" where
  "bombCount ts = length (filter is_bomb ts)"

text \<open>
  The state arrays a game can be in: \<^verbatim>\<open>GameGrid\<close> starts from the array of closed,
  unflagged cells, and every click calls \<^verbatim>\<open>uncoverTile\<close> or \<^verbatim>\<open>toggleFlag\<close> on the
  array in place then. (The grid stays mounted after \<^verbatim>\<open>onGameOver\<close>, so clicks go on.)
\<close>

inductive reachable :: "board \<Rightarrow> tileState list \<Rightarrow> bool" for b :: board where
  fresh: "reachable b (initialTileStates (width b) (height b))"
| uncover: "reachable b ss \<Longrightarrow> uncoverTile frames b ss idx = Inr (r, out) \<Longrightarrow> reachable b r"
| flag: "reachable b ss \<Longrightarrow> toggleFlag ss idx = Inr r \<Longrightarrow> reachable b r"

text \<open>
  The words of the specification for the cascade. Two cells of the grid are adjacent when
  they differ and their rows and their columns differ by one at most. The zero region of
  a cell is what can be reached from it through adjacent cells of kind empty; the ring
  are the numbered cells adjacent to a cell of the region.
\<close>

definition adjacent :: "int \<Rightarrow> int \<Rightarrow> nat \<Rightarrow> nat \<Rightarrow> bool" where
  "adjacent w h k j \<longleftrightarrow>
     k \<noteq> j \<and> int k < w * h \<and> int j < w * h
     \<and> \<bar>int j div w - int k div w\<bar> \<le> 1 \<and> \<bar>int j mod w - int k mod w\<bar> \<le> 1"

inductive_set zeroRegion :: "board \<Rightarrow> nat \<Rightarrow> nat set" for b :: board and start :: nat where
  seed: "start \<in> zeroRegion b start"
| grow: "k \<in> zeroRegion b start \<Longrightarrow> adjacent (width b) (height b) k j \<Longrightarrow>
         is_empty (tiles b ! j) \<Longrightarrow> j \<in> zeroRegion b start"

definition numberedRing :: "board \<Rightarrow> nat \<Rightarrow> nat set" where
  "numberedRing b start =
     {j. is_number (tiles b ! j) \<and> (\<exists>k \<in> zeroRegion b start. adjacent (width b) (height b) k j)}"

text \<open>
  The same in the terms of the code, for the proofs: the cells \<^verbatim>\<open>cascade\<close> can get to
  from a cell, going on from a cell of kind empty to each cell of its loops that is no
  bomb; and, of two arrays, that every cell of kind empty that is closed in the first
  and open in the second has each cell of its loops that is no bomb open in the second.
\<close>

inductive_set spread :: "board \<Rightarrow> nat \<Rightarrow> nat set" for b :: board and start :: nat where
  origin: "start \<in> spread b start"
| onward: "k \<in> spread b start \<Longrightarrow> is_empty (tiles b ! k) \<Longrightarrow>
         n \<in> set (neighbours (width b) (height b) (int k)) \<Longrightarrow>
         \<not> is_bomb (tiles b ! nat n) \<Longrightarrow> nat n \<in> spread b start"

definition cascadeClosed :: "board \<Rightarrow> tileState list \<Rightarrow> tileState list \<Rightarrow> bool" where
  "cascadeClosed b ss r \<longleftrightarrow>
     (\<forall>k<length (tiles b). isOpen (r ! k) \<and> \<not> isOpen (ss ! k) \<and> is_empty (tiles b ! k) \<longrightarrow>
        (\<forall>n \<in> set (neighbours (width b) (height b) (int k)).
            \<not> is_bomb (tiles b ! nat n) \<longrightarrow> isOpen (r ! nat n)))"

text \<open>
  What \<^verbatim>\<open>cascade\<close> may do to the array: no entry is added or removed, and an entry
  either stays or belongs to a tile that is no bomb and goes from closed to open.
\<close>

definition opens :: "board \<Rightarrow> tileState list \<Rightarrow> tileState list \<Rightarrow> bool" where
  "opens b ss r \<longleftrightarrow> length r = length ss \<and>
     (\<forall>k<length ss. r ! k = ss ! k \<or>
        (k < length (tiles b) \<and> \<not> is_bomb (tiles b ! k) \<and> \<not> isOpen (ss ! k) \<and> r ! k = (ss ! k)\<lparr>isOpen := True\<rparr>))"

text \<open>
  The board of one row that a game of width \<open>n + 2\<close>, height 1 and one bomb has when
  the bomb is drawn in the last column (lemma \<open>rowBoard_generated\<close>): \<open>n\<close> cells of
  kind empty, the cell numbered 1, and the bomb; and its state array with the cells to
  the left of column \<open>i\<close> open.
\<close>

definition rowBoard :: "nat \<Rightarrow> board" where
  "rowBoard n = \<lparr>width = int n + 2, height = 1,
     tiles = map EmptyTile [0..<n] @ [NumberTile n 1, BombTile (Suc n)]\<rparr>"

definition rowState :: "nat \<Rightarrow> nat \<Rightarrow> tileState list" where
  "rowState n i = map (\<lambda>k. \<lparr>isOpen = k < i, isFlagged = False\<rparr>) [0..<n + 2]"

section \<open>Properties of the functions\<close>

lemma fold_update_length:
  "length (fold (\<lambda>i acc. if P i then acc[i := f (acc ! i)] else acc) is ss) = length ss"
  by (induction "is" arbitrary: ss) auto

lemma fold_update_nth:
  "k < length ss \<Longrightarrow>
   fold (\<lambda>i acc. if P i then acc[i := f (acc ! i)] else acc) [0..<n] ss ! k
     = (if k < n \<and> P k then f (ss ! k) else ss ! k)"
proof (induction n)
  case 0
  then show ?case by simp
next
  case (Suc n)
  then show ?case
    by (auto simp: fold_update_length nth_list_update less_Suc_eq)
qed

lemma forEachBomb_length: "length (forEachBomb f ts ss) = length ss"
  unfolding forEachBomb_def by (rule fold_update_length)

lemma forEachBomb_nth:
  "k < length ss \<Longrightarrow>
   forEachBomb f ts ss ! k = (if k < length ts \<and> is_bomb (ts ! k) then f (ss ! k) else ss ! k)"
  unfolding forEachBomb_def
  using fold_update_nth[of k ss "\<lambda>i. is_bomb (ts ! i)" f "length ts"] by simp

lemma opens_refl: "opens b ss ss"
  by (simp add: opens_def)

lemma opens_trans: "opens b ss r \<Longrightarrow> opens b r t \<Longrightarrow> opens b ss t"
  unfolding opens_def by (metis (no_types, lifting) tileState.select_convs(1) tileState.surjective tileState.update_convs(1))

lemma opens_step:
  "k < length ss \<Longrightarrow> k < length (tiles b) \<Longrightarrow> \<not> is_bomb (tiles b ! k) \<Longrightarrow> \<not> isOpen (ss ! k) \<Longrightarrow>
   opens b ss (ss[k := (ss ! k)\<lparr>isOpen := True\<rparr>])"
  by (auto simp: opens_def nth_list_update)

lemma cascade_opens:
  "cascade frames b ss idx = Inr r \<Longrightarrow> opens b ss r"
  "cascadeEach frames b ss ns = Inr r \<Longrightarrow> opens b ss r"
proof (induction frames b ss idx and frames b ss ns arbitrary: r and r rule: cascade_cascadeEach.induct)
  case (1 b ss idx)
  then show ?case by simp
next
  case (2 frames b ss idx)
  show ?case
  proof (cases "idx < 0 \<or> idx \<ge> int (length (tiles b)) \<or> \<not> nat idx < length ss
                \<or> isOpen (ss ! nat idx) \<or> is_bomb (tiles b ! nat idx)")
    case True
    with "2.prems" show ?thesis
      by (auto simp: opens_refl split: if_splits)
  next
    case False
    let ?o = "ss[nat idx := (ss ! nat idx)\<lparr>isOpen := True\<rparr>]"
    from False have st: "opens b ss ?o"
      by (intro opens_step) auto
    show ?thesis
    proof (cases "is_empty (tiles b ! nat idx)")
      case True
      with False "2.prems" have "cascadeEach frames b ?o (neighbours (width b) (height b) idx) = Inr r"
        by (simp add: Let_def)
      with "2.IH"[of ?o r] False True have "opens b ?o r" by auto
      with st show ?thesis by (rule opens_trans)
    next
      case nonempty: False
      with False "2.prems" have "r = ?o"
        by (simp add: Let_def)
      with st show ?thesis by simp
    qed
  qed
next
  case (3 frames b ss)
  then show ?case by (simp add: opens_refl)
next
  case (4 frames b ss n ns)
  from "4.prems" obtain s where s: "cascade frames b ss n = Inr s" "cascadeEach frames b s ns = Inr r"
    by (auto split: sum.splits)
  from "4.IH"(1)[OF s(1)] "4.IH"(2)[OF s(1) s(2)] show ?case by (rule opens_trans)
qed

lemma opens_length: "opens b ss r \<Longrightarrow> length r = length ss"
  by (simp add: opens_def)

lemma opens_isOpen: "opens b ss r \<Longrightarrow> k < length ss \<Longrightarrow> isOpen (ss ! k) \<Longrightarrow> isOpen (r ! k)"
  unfolding opens_def by auto

lemma opens_isFlagged: "opens b ss r \<Longrightarrow> k < length ss \<Longrightarrow> isFlagged (r ! k) = isFlagged (ss ! k)"
  unfolding opens_def by auto

lemma opens_bomb:
  "opens b ss r \<Longrightarrow> k < length ss \<Longrightarrow> k < length (tiles b) \<Longrightarrow> is_bomb (tiles b ! k) \<Longrightarrow> r ! k = ss ! k"
  unfolding opens_def by auto

lemma unopened_le_length: "unopened ss \<le> length ss"
  by (induction ss) (simp_all add: unopened_def)

lemma opens_unopened:
  assumes "opens b ss r"
  shows "unopened r \<le> unopened ss"
proof -
  let ?f = "\<lambda>s. if isOpen s then 0 else (1::nat)"
  have len: "length (map ?f r) = length (map ?f ss)" using assms by (simp add: opens_def)
  have "map ?f r ! i \<le> map ?f ss ! i" if "i < length (map ?f r)" for i
  proof (cases "r ! i = ss ! i")
    case True
    with that len show ?thesis by simp
  next
    case False
    with that assms have "isOpen (r ! i)" unfolding opens_def by auto
    with that show ?thesis by simp
  qed
  then have "\<And>i. i < length (map ?f r) \<longrightarrow> map ?f r ! i \<le> map ?f ss ! i" by blast
  with len have "sum_list (map ?f r) \<le> sum_list (map ?f ss)" by (rule sum_list_mono2)
  then show ?thesis by (simp add: unopened_def)
qed

text \<open>
  Room for one call more than there are closed cells is enough: a call past the guard
  closes one cell less before it calls on.
\<close>

lemma cascade_returns:
  "length (tiles b) \<le> length ss \<Longrightarrow> unopened ss < frames \<Longrightarrow> \<exists>r. cascade frames b ss idx = Inr r"
  "length (tiles b) \<le> length ss \<Longrightarrow> unopened ss < frames \<Longrightarrow> \<exists>r. cascadeEach frames b ss ns = Inr r"
proof (induction frames b ss idx and frames b ss ns rule: cascade_cascadeEach.induct)
  case (1 b ss idx)
  then show ?case by simp
next
  case (2 frames b ss idx)
  show ?case
  proof (cases "idx < 0 \<or> idx \<ge> int (length (tiles b)) \<or> \<not> nat idx < length ss
                \<or> isOpen (ss ! nat idx) \<or> is_bomb (tiles b ! nat idx)")
    case True
    with "2.prems" show ?thesis by auto
  next
    case False
    let ?o = "ss[nat idx := (ss ! nat idx)\<lparr>isOpen := True\<rparr>]"
    from False have "unopened ?o < unopened ss" by (intro unopened_open) auto
    with "2.prems"(2) have lt: "unopened ?o < frames" by simp
    have lo: "length (tiles b) \<le> length ?o" using "2.prems"(1) by simp
    show ?thesis
    proof (cases "is_empty (tiles b ! nat idx)")
      case True
      from "2.IH"[OF _ _ _ refl True lo lt] False
      have "\<exists>r. cascadeEach frames b ?o (neighbours (width b) (height b) idx) = Inr r" by auto
      with False True show ?thesis by (simp add: Let_def)
    next
      case nonempty: False
      with False show ?thesis by (simp add: Let_def)
    qed
  qed
next
  case (3 frames b ss)
  then show ?case by simp
next
  case (4 frames b ss n ns)
  from "4.IH"(1)[OF "4.prems"] obtain s where s: "cascade frames b ss n = Inr s" by blast
  from cascade_opens(1)[OF s] have o: "opens b ss s" .
  from opens_length[OF o] "4.prems"(1) have ls: "length (tiles b) \<le> length s" by simp
  from opens_unopened[OF o] "4.prems"(2) have "unopened s < frames" by simp
  from "4.IH"(2)[OF s ls this] s show ?case by simp
qed

lemma cascade_opens_target:
  assumes "cascade frames b ss idx = Inr r" "0 \<le> idx" "nat idx < length (tiles b)"
    "\<not> is_bomb (tiles b ! nat idx)"
  shows "isOpen (r ! nat idx)"
proof -
  from assms(1) obtain f where f: "frames = Suc f" by (cases frames) auto
  show ?thesis
  proof (cases "isOpen (ss ! nat idx)")
    case True
    with assms f show ?thesis by (auto split: if_splits)
  next
    case False
    let ?o = "ss[nat idx := (ss ! nat idx)\<lparr>isOpen := True\<rparr>]"
    from assms False f have len: "nat idx < length ss" by (auto split: if_splits)
    from assms False len f
    have "r = ?o \<or> cascadeEach f b ?o (neighbours (width b) (height b) idx) = Inr r"
      by (auto simp: Let_def split: if_splits)
    then have "opens b ?o r" using cascade_opens(2) opens_refl by blast
    moreover have "isOpen (?o ! nat idx)" using len by simp
    ultimately show ?thesis using opens_isOpen[of b ?o r "nat idx"] len by simp
  qed
qed

lemma unopenedNonBombs_returns:
  "length ts \<le> length ss \<Longrightarrow>
   unopenedNonBombs ts ss =
     Inr (length (filter (\<lambda>i. \<not> is_bomb (ts ! i) \<and> \<not> isOpen (ss ! i)) [0..<length ts]))"
  by (auto simp: unopenedNonBombs_def)

lemma uncoverTile_opens:
  assumes "uncoverTile frames b ss idx = Inr (r, out)"
  shows "length r = length ss \<and> (\<forall>k<length ss. isOpen (ss ! k) \<longrightarrow> isOpen (r ! k))"
proof -
  consider (noop) "r = ss"
    | (bomb) "r = forEachBomb (\<lambda>s. s\<lparr>isOpen := True\<rparr>) (tiles b) ss"
    | (casc) s where "cascade frames b ss idx = Inr s"
        "r = s \<or> r = forEachBomb (\<lambda>s. s\<lparr>isFlagged := True\<rparr>) (tiles b) s"
    using assms by (auto simp: uncoverTile_def split: if_splits sum.splits)
  then show ?thesis
  proof cases
    case noop
    then show ?thesis by simp
  next
    case bomb
    then show ?thesis by (simp add: forEachBomb_length forEachBomb_nth)
  next
    case casc
    from casc(1) have o: "opens b ss s" by (rule cascade_opens(1))
    from casc(2) have "length r = length s \<and> (\<forall>k<length s. isOpen (r ! k) = isOpen (s ! k))"
      by (auto simp: forEachBomb_length forEachBomb_nth split: if_splits)
    with o show ?thesis by (auto simp: opens_length dest: opens_isOpen)
  qed
qed

lemma uncoverTile_returns:
  assumes "wellFormed b ss" "0 \<le> idx" "idx < width b * height b"
    "nat (width b * height b) < frames"
  shows "\<exists>r out. uncoverTile frames b ss idx = Inr (r, out)"
proof -
  from assms(1) have len: "length (tiles b) \<le> length ss"
    and n: "length ss = nat (width b * height b)" by (simp_all add: wellFormed_def)
  from unopened_le_length[of ss] n assms(4) have "unopened ss < frames" by simp
  from cascade_returns(1)[OF len this] obtain s where s: "cascade frames b ss idx = Inr s" by blast
  then have "length s = length ss" by (intro opens_length cascade_opens(1))
  with len have "length (tiles b) \<le> length s" by simp
  from unopenedNonBombs_returns[OF this] s assms show ?thesis
    by (auto simp: uncoverTile_def wellFormed_def simp del: cascade.simps)
qed

lemma uncoverTile_opens_target:
  assumes "wellFormed b ss" "0 \<le> idx" "idx < width b * height b"
    "uncoverTile frames b ss idx = Inr (r, out)"
  shows "isOpen (r ! nat idx)"
proof -
  from assms have n: "nat idx < length ss" "nat idx < length (tiles b)"
    by (auto simp: wellFormed_def)
  consider (noop) "isOpen (ss ! nat idx)" "r = ss"
    | (bomb) "is_bomb (tiles b ! nat idx)" "r = forEachBomb (\<lambda>s. s\<lparr>isOpen := True\<rparr>) (tiles b) ss"
    | (casc) s where "\<not> is_bomb (tiles b ! nat idx)" "cascade frames b ss idx = Inr s"
        "r = s \<or> r = forEachBomb (\<lambda>s. s\<lparr>isFlagged := True\<rparr>) (tiles b) s"
    using assms(4) by (auto simp: uncoverTile_def split: if_splits sum.splits)
  then show ?thesis
  proof cases
    case noop
    then show ?thesis by simp
  next
    case bomb
    with n show ?thesis by (simp add: forEachBomb_nth)
  next
    case casc
    from casc(2) have "length s = length ss" by (intro opens_length cascade_opens(1))
    moreover from cascade_opens_target[OF casc(2) assms(2) n(2) casc(1)] have "isOpen (s ! nat idx)" .
    ultimately show ?thesis using casc(3) n by (auto simp: forEachBomb_nth)
  qed
qed

lemma wellFormed_board2x1: "wellFormed board2x1 (initialTileStates 2 1)"
  by (simp add: wellFormed_def board2x1_def initialTileStates_def)

lemma wellFormed_board2x1_left: "wellFormed board2x1_left (initialTileStates 2 1)"
  by (simp add: wellFormed_def board2x1_left_def initialTileStates_def)

lemma uncover_board2x1_left:
  "uncoverTile 3 board2x1_left (initialTileStates 2 1) 1
     = Inr ([\<lparr>isOpen = False, isFlagged = True\<rparr>, \<lparr>isOpen = True, isFlagged = False\<rparr>], Some True)"
  by code_simp

lemma wellFormed_board5x1: "wellFormed board5x1 (initialTileStates 5 1)"
  by (simp add: wellFormed_def board5x1_def initialTileStates_def)

lemma forEachBomb_flag_isOpen:
  "map isOpen (forEachBomb (\<lambda>s. s\<lparr>isFlagged := True\<rparr>) ts ss) = map isOpen ss"
  by (rule nth_equalityI) (simp_all add: forEachBomb_length forEachBomb_nth)

lemma uncover_board2x1:
  "uncoverTile 3 board2x1 (initialTileStates 2 1) 0
     = Inr ([\<lparr>isOpen = True, isFlagged = False\<rparr>, \<lparr>isOpen = False, isFlagged = True\<rparr>], Some True)"
  by code_simp

lemma map_isOpen_nth:
  "map isOpen ss1 = map isOpen ss2 \<Longrightarrow> k < length ss1 \<Longrightarrow> isOpen (ss1 ! k) = isOpen (ss2 ! k)"
  by (metis nth_map map_eq_imp_length_eq)

lemma cascade_flags:
  "map isOpen ss1 = map isOpen ss2 \<Longrightarrow>
   rel_sum (=) (\<lambda>r1 r2. map isOpen r1 = map isOpen r2) (cascade frames b ss1 idx) (cascade frames b ss2 idx)"
  "map isOpen ss1 = map isOpen ss2 \<Longrightarrow>
   rel_sum (=) (\<lambda>r1 r2. map isOpen r1 = map isOpen r2) (cascadeEach frames b ss1 ns) (cascadeEach frames b ss2 ns)"
proof (induction frames b ss1 idx and frames b ss1 ns arbitrary: ss2 and ss2 rule: cascade_cascadeEach.induct)
  case (1 b ss1 idx)
  then show ?case by simp
next
  case (2 frames b ss1 idx)
  from "2.prems" have len: "length ss1 = length ss2" by (rule map_eq_imp_length_eq)
  show ?case
  proof (cases "idx < 0 \<or> idx \<ge> int (length (tiles b)) \<or> \<not> nat idx < length ss1
                \<or> isOpen (ss1 ! nat idx) \<or> is_bomb (tiles b ! nat idx)")
    case True
    with "2.prems" len map_isOpen_nth[OF "2.prems", of "nat idx"] show ?thesis
      by auto
  next
    case False
    let ?o1 = "ss1[nat idx := (ss1 ! nat idx)\<lparr>isOpen := True\<rparr>]"
    let ?o2 = "ss2[nat idx := (ss2 ! nat idx)\<lparr>isOpen := True\<rparr>]"
    from False len map_isOpen_nth[OF "2.prems", of "nat idx"]
    have c2: "\<not> (idx < 0 \<or> idx \<ge> int (length (tiles b)) \<or> \<not> nat idx < length ss2
                \<or> isOpen (ss2 ! nat idx) \<or> is_bomb (tiles b ! nat idx))" by auto
    have o: "map isOpen ?o1 = map isOpen ?o2"
      using "2.prems" by (simp add: map_update)
    show ?thesis
    proof (cases "is_empty (tiles b ! nat idx)")
      case True
      from "2.IH"[OF _ _ _ refl True o] False
      have "rel_sum (=) (\<lambda>r1 r2. map isOpen r1 = map isOpen r2)
              (cascadeEach frames b ?o1 (neighbours (width b) (height b) idx))
              (cascadeEach frames b ?o2 (neighbours (width b) (height b) idx))" by auto
      with False c2 True show ?thesis by (simp add: Let_def)
    next
      case nonempty: False
      with False c2 o show ?thesis by (simp add: Let_def)
    qed
  qed
next
  case (3 frames b ss1)
  then show ?case by simp
next
  case (4 frames b ss1 n ns)
  from "4.IH"(1)[OF "4.prems"]
  have r: "rel_sum (=) (\<lambda>r1 r2. map isOpen r1 = map isOpen r2) (cascade frames b ss1 n) (cascade frames b ss2 n)" .
  show ?case
  proof (cases "cascade frames b ss1 n")
    case (Inl e)
    with r have "cascade frames b ss2 n = Inl e"
      by (cases "cascade frames b ss2 n") (simp_all del: cascade.simps)
    with Inl show ?thesis by simp
  next
    case (Inr s1)
    with r obtain s2 where s2: "cascade frames b ss2 n = Inr s2" "map isOpen s1 = map isOpen s2"
      by (cases "cascade frames b ss2 n") (simp_all del: cascade.simps)
    from "4.IH"(2)[OF Inr s2(2)] Inr s2(1) show ?thesis by simp
  qed
qed

lemma unopenedNonBombs_flags:
  assumes "map isOpen s1 = map isOpen s2"
  shows "unopenedNonBombs ts s1 = unopenedNonBombs ts s2"
proof -
  from assms have len: "length s1 = length s2" by (rule map_eq_imp_length_eq)
  show ?thesis
  proof (cases "\<exists>i \<in> set [0..<length ts]. \<not> is_bomb (ts ! i) \<and> \<not> i < length s1")
    case True
    with len show ?thesis by (simp add: unopenedNonBombs_def)
  next
    case False
    then have "filter (\<lambda>i. \<not> is_bomb (ts ! i) \<and> \<not> isOpen (s1 ! i)) [0..<length ts]
             = filter (\<lambda>i. \<not> is_bomb (ts ! i) \<and> \<not> isOpen (s2 ! i)) [0..<length ts]"
      using map_isOpen_nth[OF assms] by (intro filter_cong) auto
    with False len show ?thesis by (simp add: unopenedNonBombs_def)
  qed
qed

lemma forEachBomb_open_flags:
  assumes "map isOpen s1 = map isOpen s2"
  shows "map isOpen (forEachBomb (\<lambda>s. s\<lparr>isOpen := True\<rparr>) ts s1)
       = map isOpen (forEachBomb (\<lambda>s. s\<lparr>isOpen := True\<rparr>) ts s2)"
proof (rule nth_equalityI)
  from assms have len: "length s1 = length s2" by (rule map_eq_imp_length_eq)
  then show "length (map isOpen (forEachBomb (\<lambda>s. s\<lparr>isOpen := True\<rparr>) ts s1))
           = length (map isOpen (forEachBomb (\<lambda>s. s\<lparr>isOpen := True\<rparr>) ts s2))"
    by (simp add: forEachBomb_length)
  fix k assume "k < length (map isOpen (forEachBomb (\<lambda>s. s\<lparr>isOpen := True\<rparr>) ts s1))"
  then have k: "k < length s1" by (simp add: forEachBomb_length)
  with len map_isOpen_nth[OF assms k]
  show "map isOpen (forEachBomb (\<lambda>s. s\<lparr>isOpen := True\<rparr>) ts s1) ! k
      = map isOpen (forEachBomb (\<lambda>s. s\<lparr>isOpen := True\<rparr>) ts s2) ! k"
    by (simp add: forEachBomb_length forEachBomb_nth)
qed

lemma cascadeLog_cascade:
  "map_sum (\<lambda>e. e) fst (cascadeLog frames b st idx) = cascade frames b (fst st) idx"
  "map_sum (\<lambda>e. e) fst (cascadeEachLog frames b st ns) = cascadeEach frames b (fst st) ns"
proof (induction frames b st idx and frames b st ns rule: cascadeLog_cascadeEachLog.induct)
  case (1 b st idx)
  then show ?case by simp
next
  case (2 frames b st idx)
  show ?case
  proof (cases "idx < 0 \<or> idx \<ge> int (length (tiles b)) \<or> \<not> nat idx < length (fst st)
                \<or> isOpen (fst st ! nat idx) \<or> is_bomb (tiles b ! nat idx)")
    case True
    then show ?thesis by auto
  next
    case False
    let ?o = "((fst st)[nat idx := (fst st ! nat idx)\<lparr>isOpen := True\<rparr>], snd st @ [idx])"
    show ?thesis
    proof (cases "is_empty (tiles b ! nat idx)")
      case True
      with "2.IH"[of ?o] False
      have "map_sum (\<lambda>e. e) fst (cascadeEachLog frames b ?o (neighbours (width b) (height b) idx))
          = cascadeEach frames b (fst ?o) (neighbours (width b) (height b) idx)" by auto
      with False True show ?thesis by (simp add: Let_def)
    next
      case nonempty: False
      with False show ?thesis by (simp add: Let_def)
    qed
  qed
next
  case (3 frames b st)
  then show ?case by simp
next
  case (4 frames b st n ns)
  show ?case
  proof (cases "cascadeLog frames b st n")
    case (Inl e)
    with "4.IH"(1) have "cascade frames b (fst st) n = Inl e"
      by (simp del: cascade.simps cascadeLog.simps)
    with Inl show ?thesis by (simp del: cascade.simps cascadeLog.simps)
  next
    case (Inr s)
    with "4.IH"(1) have "cascade frames b (fst st) n = Inr (fst s)"
      by (simp del: cascade.simps cascadeLog.simps)
    with Inr "4.IH"(2)[OF Inr] show ?thesis by (simp del: cascade.simps cascadeLog.simps)
  qed
qed

lemma logged_refl: "logged b st st"
  by (simp add: logged_def)

lemma logged_trans:
  assumes "logged b st s" "logged b s r" "opens b (fst st) (fst s)" "opens b (fst s) (fst r)"
  shows "logged b st r"
proof -
  from assms(1) obtain n1 where n1: "snd s = snd st @ n1" "distinct n1"
    "\<forall>k \<in> set n1. 0 \<le> k \<and> nat k < length (tiles b) \<and> nat k < length (fst st)
              \<and> \<not> isOpen (fst st ! nat k) \<and> isOpen (fst s ! nat k)"
    unfolding logged_def by blast
  from assms(2) obtain n2 where n2: "snd r = snd s @ n2" "distinct n2"
    "\<forall>k \<in> set n2. 0 \<le> k \<and> nat k < length (tiles b) \<and> nat k < length (fst s)
              \<and> \<not> isOpen (fst s ! nat k) \<and> isOpen (fst r ! nat k)"
    unfolding logged_def by blast
  have len: "length (fst s) = length (fst st)" using assms(3) by (rule opens_length)
  have d: "set n1 \<inter> set n2 = {}" using n1(3) n2(3) by auto
  have a: "\<forall>k \<in> set n1. isOpen (fst r ! nat k)"
    using n1(3) len opens_isOpen[OF assms(4)] by auto
  have b: "\<forall>k \<in> set n2. \<not> isOpen (fst st ! nat k)"
    using n2(3) len opens_isOpen[OF assms(3)] by auto
  have c: "\<forall>k \<in> set (n1 @ n2). 0 \<le> k \<and> nat k < length (tiles b) \<and> nat k < length (fst st)
              \<and> \<not> isOpen (fst st ! nat k) \<and> isOpen (fst r ! nat k)"
    using n1(3) n2(3) a b len by auto
  have "snd r = snd st @ (n1 @ n2)" "distinct (n1 @ n2)"
    using n1(1,2) n2(1,2) d by simp_all
  with c show ?thesis unfolding logged_def by blast
qed

lemma cascadeLog_opens:
  assumes "cascadeLog frames b st idx = Inr r"
  shows "opens b (fst st) (fst r)"
proof -
  from assms cascadeLog_cascade(1)[of frames b st idx] have "cascade frames b (fst st) idx = Inr (fst r)"
    by (simp del: cascade.simps cascadeLog.simps)
  then show ?thesis by (rule cascade_opens(1))
qed

lemma cascadeEachLog_opens:
  assumes "cascadeEachLog frames b st ns = Inr r"
  shows "opens b (fst st) (fst r)"
proof -
  from assms cascadeLog_cascade(2)[of frames b st ns] have "cascadeEach frames b (fst st) ns = Inr (fst r)"
    by (cases ns) (simp_all del: cascade.simps cascadeLog.simps cascadeEach.simps cascadeEachLog.simps)
  then show ?thesis by (rule cascade_opens(2))
qed

lemma cascadeLog_logged:
  "cascadeLog frames b st idx = Inr r \<Longrightarrow> logged b st r"
  "cascadeEachLog frames b st ns = Inr r \<Longrightarrow> logged b st r"
proof (induction frames b st idx and frames b st ns arbitrary: r and r rule: cascadeLog_cascadeEachLog.induct)
  case (1 b st idx)
  then show ?case by simp
next
  case (2 frames b st idx)
  show ?case
  proof (cases "idx < 0 \<or> idx \<ge> int (length (tiles b)) \<or> \<not> nat idx < length (fst st)
                \<or> isOpen (fst st ! nat idx) \<or> is_bomb (tiles b ! nat idx)")
    case True
    with "2.prems" show ?thesis by (auto simp: logged_refl split: if_splits)
  next
    case False
    let ?o = "((fst st)[nat idx := (fst st ! nat idx)\<lparr>isOpen := True\<rparr>], snd st @ [idx])"
    from False have st: "logged b st ?o"
      unfolding logged_def by (intro exI[of _ "[idx]"]) auto
    from False have so: "opens b (fst st) (fst ?o)"
      by (auto intro!: opens_step)
    show ?thesis
    proof (cases "is_empty (tiles b ! nat idx)")
      case True
      with False "2.prems" have e: "cascadeEachLog frames b ?o (neighbours (width b) (height b) idx) = Inr r"
        by (simp add: Let_def)
      with "2.IH"[of ?o r] False True have "logged b ?o r" by auto
      with st show ?thesis using so cascadeEachLog_opens[OF e] by (rule logged_trans)
    next
      case nonempty: False
      with False "2.prems" have "r = ?o" by (simp add: Let_def)
      with st show ?thesis by simp
    qed
  qed
next
  case (3 frames b st)
  then show ?case by (simp add: logged_refl)
next
  case (4 frames b st n ns)
  from "4.prems" obtain s where s: "cascadeLog frames b st n = Inr s" "cascadeEachLog frames b s ns = Inr r"
    by (auto split: sum.splits simp del: cascadeLog.simps)
  from "4.IH"(1)[OF s(1)] "4.IH"(2)[OF s(1) s(2)] cascadeLog_opens[OF s(1)] cascadeEachLog_opens[OF s(2)]
  show ?case by (rule logged_trans)
qed

lemma distinct_in_range_length:
  assumes "distinct (xs :: int list)" "\<forall>k \<in> set xs. 0 \<le> k \<and> nat k < n"
  shows "length xs \<le> n"
proof -
  have "set xs \<subseteq> {0..<int n}" using assms(2) by auto
  then have "card (set xs) \<le> card {0..<int n}" by (intro card_mono) auto
  with assms(1) show ?thesis by (simp add: distinct_card)
qed

lemma cell_in_grid:
  fixes w h r c :: int
  assumes "0 \<le> r" "r < h" "0 \<le> c" "c < w"
  shows "0 \<le> r * w + c" "r * w + c < w * h"
proof -
  from assms show "0 \<le> r * w + c" by simp
  from assms have "r + 1 \<le> h" "0 \<le> w" by simp_all
  then have "(r + 1) * w \<le> h * w" by (rule mult_right_mono)
  with assms show "r * w + c < w * h" by (simp add: algebra_simps)
qed

lemma concat_map_if_product:
  "concat (map (\<lambda>i. concat (map (\<lambda>j. if P i j then [g i j] else []) ys)) xs)
     = map (\<lambda>(i, j). g i j) (filter (\<lambda>(i, j). P i j) (List.product xs ys))"
proof (induction xs)
  case Nil
  then show ?case by simp
next
  case (Cons x xs)
  have "concat (map (\<lambda>j. if P x j then [g x j] else []) ys)
      = map (\<lambda>(i, j). g i j) (filter (\<lambda>(i, j). P i j) (map (Pair x) ys))"
    by (induction ys) auto
  with Cons show ?case by simp
qed

lemma neighbours_block3x3:
  "neighbours w h idx =
     map (\<lambda>(i, j). (idx div w + i) * w + (idx mod w + j))
       (filter (\<lambda>(i, j). 0 \<le> idx div w + i \<and> idx div w + i < h
                         \<and> 0 \<le> idx mod w + j \<and> idx mod w + j < w) block3x3)"
  unfolding neighbours_def Let_def block3x3_def by (rule concat_map_if_product)

lemma neighbours_in_grid:
  assumes "n \<in> set (neighbours w h idx)"
  shows "0 \<le> n \<and> n < w * h"
proof -
  from assms obtain i j where "n = (idx div w + i) * w + (idx mod w + j)"
    "0 \<le> idx div w + i" "idx div w + i < h" "0 \<le> idx mod w + j" "idx mod w + j < w"
    unfolding neighbours_block3x3 by auto
  then show ?thesis using cell_in_grid[of "idx div w + i" h "idx mod w + j" w] by simp
qed

lemma countBombsAt_count:
  "\<forall>n \<in> set ns. 0 \<le> n \<and> nat n < length positions \<Longrightarrow>
   countBombsAt positions ns c = Inr (c + length (filter (\<lambda>n. is_bomb (positions ! nat n)) ns))"
  by (induction ns arbitrary: c) auto

lemma countAdjacentBombs_recount:
  assumes "length positions = nat (w * h)" "\<not> is_bomb (positions ! k)"
  shows "countAdjacentBombs w h k positions = Inr (recount w h positions k)"
proof -
  let ?row = "int k div w" and ?col = "int k mod w"
  let ?inb = "\<lambda>(i, j). 0 \<le> ?row + i \<and> ?row + i < h \<and> 0 \<le> ?col + j \<and> ?col + j < w"
  let ?at = "\<lambda>(i, j). (?row + i) * w + (?col + j)"
  have rng: "\<forall>n \<in> set (neighbours w h (int k)). 0 \<le> n \<and> nat n < length positions"
  proof
    fix n assume "n \<in> set (neighbours w h (int k))"
    from neighbours_in_grid[OF this] assms(1) show "0 \<le> n \<and> nat n < length positions" by simp
  qed
  have centre: "?at (0, 0) = int k" by simp
  have "length (filter (\<lambda>n. is_bomb (positions ! nat n)) (neighbours w h (int k)))
      = length (filter (\<lambda>p. ?inb p \<and> is_bomb (positions ! nat (?at p))) block3x3)"
    unfolding neighbours_block3x3 by (simp add: filter_map o_def case_prod_unfold)
  also have "filter (\<lambda>p. ?inb p \<and> is_bomb (positions ! nat (?at p))) block3x3
           = filter (\<lambda>p. p \<noteq> (0, 0) \<and> ?inb p \<and> is_bomb (positions ! nat (?at p))) block3x3"
  proof (rule filter_cong[OF refl])
    fix p assume "p \<in> set block3x3"
    show "(?inb p \<and> is_bomb (positions ! nat (?at p)))
        = (p \<noteq> (0, 0) \<and> ?inb p \<and> is_bomb (positions ! nat (?at p)))"
    proof (cases "p = (0, 0)")
      case True
      with assms(2) centre show ?thesis by simp
    next
      case False
      then show ?thesis by simp
    qed
  qed
  also have "length \<dots> = recount w h positions k"
    by (simp add: recount_def Let_def case_prod_unfold prod_eq_iff)
  finally show ?thesis
    using countBombsAt_count[OF rng, of 0] by (simp add: countAdjacentBombs_def)
qed

lemma bombCount_place:
  "r < length p \<Longrightarrow> \<not> is_bomb (p ! r) \<Longrightarrow> bombCount (p[r := BombTile r']) = Suc (bombCount p)"
proof (induction p arbitrary: r)
  case Nil
  then show ?case by simp
next
  case (Cons t p)
  show ?case
  proof (cases r)
    case 0
    with Cons.prems show ?thesis by (simp add: bombCount_def)
  next
    case (Suc j)
    with Cons.prems Cons.IH[of j] show ?thesis by (simp add: bombCount_def)
  qed
qed

lemma placeBombs_count:
  assumes "placeBombs p k n draws = Some (Inr p')" "k = int (bombCount p)"
  shows "length p' = length p \<and> int (bombCount p') = max k n"
  using assms
proof (induction draws arbitrary: p k)
  case Nil
  then show ?case by (auto split: if_splits)
next
  case (Cons r draws)
  show ?case
  proof (cases "k < n")
    case False
    with Cons.prems show ?thesis by auto
  next
    case True
    with Cons.prems have r: "r < length p" by (auto split: if_splits)
    show ?thesis
    proof (cases "is_empty (p ! r)")
      case e: True
      then have nb: "\<not> is_bomb (p ! r)" by (cases "p ! r") auto
      from True r e Cons.prems(1)
      have "placeBombs (p[r := BombTile r]) (k + 1) n draws = Some (Inr p')" by simp
      moreover have "k + 1 = int (bombCount (p[r := BombTile r]))"
        using bombCount_place[OF r nb] Cons.prems(2) by simp
      ultimately have "length p' = length (p[r := BombTile r]) \<and> int (bombCount p') = max (k + 1) n"
        by (rule Cons.IH)
      with True show ?thesis by auto
    next
      case e: False
      with True r Cons.prems(1) have "placeBombs p k n draws = Some (Inr p')" by simp
      from Cons.IH[OF this Cons.prems(2)] show ?thesis .
    qed
  qed
qed

lemma calculateNumbers_nth:
  "calculateNumbers w h positions idxs = Inr ts \<Longrightarrow>
   length ts = length idxs \<and> (\<forall>j<length idxs. numberTile w h positions (idxs ! j) = Inr (ts ! j))"
proof (induction idxs arbitrary: ts)
  case Nil
  then show ?case by simp
next
  case (Cons i idxs)
  from Cons.prems obtain t rest where t: "numberTile w h positions i = Inr t"
    "calculateNumbers w h positions idxs = Inr rest" "ts = t # rest"
    by (auto split: sum.splits)
  from Cons.IH[OF t(2)] t(1,3) show ?case by (auto simp: nth_Cons split: nat.splits)
qed

lemma numberTile_is_bomb:
  "numberTile w h positions k = Inr t \<Longrightarrow> is_bomb t = is_bomb (positions ! k)"
  by (auto simp: numberTile_def split: if_splits sum.splits)

lemma bombCount_cong:
  assumes "length ts = length ps" "\<forall>k<length ps. is_bomb (ts ! k) = is_bomb (ps ! k)"
  shows "bombCount ts = bombCount ps"
proof -
  from assms have "map is_bomb ts = map is_bomb ps" by (intro nth_equalityI) simp_all
  then have "length (filter (\<lambda>x. x) (map is_bomb ts)) = length (filter (\<lambda>x. x) (map is_bomb ps))"
    by simp
  then show ?thesis by (simp add: bombCount_def filter_map o_def)
qed

lemma recount_cong:
  assumes "\<forall>n<nat (w * h). is_bomb (ts ! n) = is_bomb (ps ! n)"
  shows "recount w h ts k = recount w h ps k"
proof -
  let ?row = "int k div w" and ?col = "int k mod w"
  have "(0 \<le> ?row + dr \<and> ?row + dr < h \<and> 0 \<le> ?col + dc \<and> ?col + dc < w
          \<and> is_bomb (ts ! nat ((?row + dr) * w + (?col + dc))))
      = (0 \<le> ?row + dr \<and> ?row + dr < h \<and> 0 \<le> ?col + dc \<and> ?col + dc < w
          \<and> is_bomb (ps ! nat ((?row + dr) * w + (?col + dc))))" for dr dc
  proof (cases "0 \<le> ?row + dr \<and> ?row + dr < h \<and> 0 \<le> ?col + dc \<and> ?col + dc < w")
    case True
    with cell_in_grid[of "?row + dr" h "?col + dc" w]
    have "nat ((?row + dr) * w + (?col + dc)) < nat (w * h)" by simp
    with assms show ?thesis by simp
  next
    case False
    then show ?thesis by blast
  qed
  then show ?thesis by (simp add: recount_def Let_def)
qed

lemma block3x3_iff: "(i, j) \<in> set block3x3 \<longleftrightarrow> i \<in> {-1, 0, 1} \<and> j \<in> {-1, 0, 1}"
  by (auto simp: block3x3_def)

lemma cell_div_mod:
  fixes w r c :: int
  assumes "0 \<le> c" "c < w"
  shows "(r * w + c) div w = r" "(r * w + c) mod w = c"
  using assms by simp_all

lemma row_in_grid:
  fixes w h j :: int
  assumes "0 < w" "0 \<le> j" "j < w * h"
  shows "0 \<le> j div w" "j div w < h"
proof -
  from assms show "0 \<le> j div w" by (simp add: pos_imp_zdiv_nonneg_iff)
  show "j div w < h"
  proof (rule ccontr)
    assume "\<not> j div w < h"
    then have "h \<le> j div w" by simp
    with assms(1) have "h * w \<le> (j div w) * w" by (intro mult_right_mono) simp_all
    also have "\<dots> \<le> j" using assms(1) by (metis add.commute add_increasing2 div_mult_mod_eq mult.commute order_refl pos_mod_sign)
    finally show False using assms(3) by (simp add: mult.commute)
  qed
qed

lemma neighbours_adjacent:
  assumes "0 < w" "int k < w * h"
  shows "n \<in> set (neighbours w h (int k)) \<longleftrightarrow> 0 \<le> n \<and> (nat n = k \<or> adjacent w h k (nat n))"
proof
  assume "n \<in> set (neighbours w h (int k))"
  then obtain i j where ij: "(i, j) \<in> set block3x3" "n = (int k div w + i) * w + (int k mod w + j)"
    "0 \<le> int k div w + i" "int k div w + i < h" "0 \<le> int k mod w + j" "int k mod w + j < w"
    unfolding neighbours_block3x3 by auto
  from cell_in_grid[OF ij(3-6)] ij(2) have n: "0 \<le> n" "n < w * h" by simp_all
  from cell_div_mod[OF ij(5,6), of "int k div w + i"] ij(2)
  have dm: "n div w = int k div w + i" "n mod w = int k mod w + j" by simp_all
  from ij(1) have "\<bar>i\<bar> \<le> 1" "\<bar>j\<bar> \<le> 1" by (auto simp: block3x3_iff)
  with dm n assms show "0 \<le> n \<and> (nat n = k \<or> adjacent w h k (nat n))"
    by (auto simp: adjacent_def)
next
  assume a: "0 \<le> n \<and> (nat n = k \<or> adjacent w h k (nat n))"
  then have n: "0 \<le> n" "n < w * h" using assms(2) by (auto simp: adjacent_def)
  let ?i = "n div w - int k div w" and ?j = "n mod w - int k mod w"
  from a have "\<bar>?i\<bar> \<le> 1" "\<bar>?j\<bar> \<le> 1" by (auto simp: adjacent_def)
  then have m: "(?i, ?j) \<in> set block3x3" unfolding block3x3_iff by auto
  from row_in_grid[OF assms(1) n] assms(1)
  have b: "0 \<le> int k div w + ?i" "int k div w + ?i < h" "0 \<le> int k mod w + ?j" "int k mod w + ?j < w"
    by simp_all
  have e: "n = (int k div w + ?i) * w + (int k mod w + ?j)" by simp
  show "n \<in> set (neighbours w h (int k))"
    unfolding neighbours_block3x3 using m b e by (intro image_eqI[where x="(?i, ?j)"] | simp)+
qed

lemma neighbours_in_tiles:
  assumes "length (tiles b) = nat (width b * height b)"
    "n \<in> set (neighbours (width b) (height b) idx)"
  shows "0 \<le> n \<and> nat n < length (tiles b)"
  using neighbours_in_grid[OF assms(2)] assms(1) by simp

lemma cascadeClosed_refl: "cascadeClosed b ss ss"
  unfolding cascadeClosed_def by blast

lemma cascadeClosed_trans:
  assumes "cascadeClosed b ss s" "cascadeClosed b s r" "opens b s r"
    "length (tiles b) = nat (width b * height b)" "length (tiles b) \<le> length s"
  shows "cascadeClosed b ss r"
  unfolding cascadeClosed_def
proof (intro allI impI ballI)
  fix k n
  assume k: "k < length (tiles b)"
    and o: "isOpen (r ! k) \<and> \<not> isOpen (ss ! k) \<and> is_empty (tiles b ! k)"
    and n: "n \<in> set (neighbours (width b) (height b) (int k))" "\<not> is_bomb (tiles b ! nat n)"
  show "isOpen (r ! nat n)"
  proof (cases "isOpen (s ! k)")
    case True
    with assms(1) k o n have "isOpen (s ! nat n)" unfolding cascadeClosed_def by blast
    moreover from neighbours_in_tiles[OF assms(4) n(1)] assms(5) have "nat n < length s" by simp
    ultimately show ?thesis using opens_isOpen[OF assms(3)] by blast
  next
    case False
    with assms(2) k o n show ?thesis unfolding cascadeClosed_def by blast
  qed
qed

lemma cascade_closed_new:
  "length (tiles b) = nat (width b * height b) \<Longrightarrow> length (tiles b) \<le> length ss \<Longrightarrow>
   cascade frames b ss idx = Inr r \<Longrightarrow> cascadeClosed b ss r"
  "length (tiles b) = nat (width b * height b) \<Longrightarrow> length (tiles b) \<le> length ss \<Longrightarrow>
   cascadeEach frames b ss ns = Inr r \<Longrightarrow>
   cascadeClosed b ss r
   \<and> (\<forall>n \<in> set ns. 0 \<le> n \<and> nat n < length (tiles b) \<and> \<not> is_bomb (tiles b ! nat n)
          \<longrightarrow> isOpen (r ! nat n))"
proof (induction frames b ss idx and frames b ss ns arbitrary: r and r rule: cascade_cascadeEach.induct)
  case (1 b ss idx)
  then show ?case by simp
next
  case (2 frames b ss idx)
  show ?case
  proof (cases "idx < 0 \<or> idx \<ge> int (length (tiles b)) \<or> \<not> nat idx < length ss
                \<or> isOpen (ss ! nat idx) \<or> is_bomb (tiles b ! nat idx)")
    case True
    with "2.prems" have "r = ss" by (auto split: if_splits)
    then show ?thesis by (simp add: cascadeClosed_refl)
  next
    case False
    let ?o = "ss[nat idx := (ss ! nat idx)\<lparr>isOpen := True\<rparr>]"
    have lo: "length (tiles b) \<le> length ?o" using "2.prems"(2) by simp
    show ?thesis
    proof (cases "is_empty (tiles b ! nat idx)")
      case True
      with False "2.prems" have e: "cascadeEach frames b ?o (neighbours (width b) (height b) idx) = Inr r"
        by (simp add: Let_def)
      from "2.IH"[OF _ _ _ refl True "2.prems"(1) lo e] False
      have c: "cascadeClosed b ?o r"
        and a: "\<forall>n \<in> set (neighbours (width b) (height b) idx). 0 \<le> n \<and> nat n < length (tiles b)
                  \<and> \<not> is_bomb (tiles b ! nat n) \<longrightarrow> isOpen (r ! nat n)"
        by auto
      show ?thesis unfolding cascadeClosed_def
      proof (intro allI impI ballI)
        fix k n
        assume k: "k < length (tiles b)"
          and o: "isOpen (r ! k) \<and> \<not> isOpen (ss ! k) \<and> is_empty (tiles b ! k)"
          and n: "n \<in> set (neighbours (width b) (height b) (int k))" "\<not> is_bomb (tiles b ! nat n)"
        show "isOpen (r ! nat n)"
        proof (cases "k = nat idx")
          case True
          with False have "int k = idx" by simp
          with n a neighbours_in_tiles[OF "2.prems"(1) n(1)] show ?thesis by simp
        next
          case kn: False
          then have "?o ! k = ss ! k" by simp
          with c k o n show ?thesis unfolding cascadeClosed_def by simp
        qed
      qed
    next
      case nonempty: False
      with False "2.prems" have "r = ?o" by (simp add: Let_def)
      have "k = nat idx" if "isOpen (?o ! k)" "\<not> isOpen (ss ! k)" for k
        using that by (cases "k = nat idx") simp_all
      with nonempty \<open>r = ?o\<close> show ?thesis
        unfolding cascadeClosed_def by blast
    qed
  qed
next
  case (3 frames b ss)
  then show ?case by (simp add: cascadeClosed_refl)
next
  case (4 frames b ss n ns)
  from "4.prems" obtain s where s: "cascade frames b ss n = Inr s" "cascadeEach frames b s ns = Inr r"
    by (auto split: sum.splits simp del: cascade.simps)
  from cascade_opens(1)[OF s(1)] have os: "opens b ss s" .
  from cascade_opens(2)[OF s(2)] have orr: "opens b s r" .
  from os "4.prems"(2) have ls: "length (tiles b) \<le> length s" by (simp add: opens_length)
  from "4.IH"(1)[OF "4.prems"(1,2) s(1)] have c1: "cascadeClosed b ss s" .
  from "4.IH"(2)[OF s(1) "4.prems"(1) ls s(2)] have c2: "cascadeClosed b s r"
    and a: "\<forall>m \<in> set ns. 0 \<le> m \<and> nat m < length (tiles b) \<and> \<not> is_bomb (tiles b ! nat m)
              \<longrightarrow> isOpen (r ! nat m)" by auto
  have "isOpen (r ! nat n)" if "0 \<le> n" "nat n < length (tiles b)" "\<not> is_bomb (tiles b ! nat n)"
  proof -
    from cascade_opens_target[OF s(1) that] have "isOpen (s ! nat n)" .
    with opens_isOpen[OF orr, of "nat n"] that(2) ls show ?thesis by simp
  qed
  with a cascadeClosed_trans[OF c1 c2 orr "4.prems"(1) ls] show ?case by auto
qed

lemma spread_trans:
  assumes "k \<in> spread b j" "j \<in> spread b i"
  shows "k \<in> spread b i"
  using assms by (induction rule: spread.induct) (auto intro: spread.onward)

lemma cascade_spread:
  "cascade frames b ss idx = Inr r \<Longrightarrow> k < length ss \<Longrightarrow> isOpen (r ! k) \<Longrightarrow> \<not> isOpen (ss ! k) \<Longrightarrow>
   0 \<le> idx \<and> nat idx < length (tiles b) \<and> \<not> is_bomb (tiles b ! nat idx) \<and> k \<in> spread b (nat idx)"
  "cascadeEach frames b ss ns = Inr r \<Longrightarrow> k < length ss \<Longrightarrow> isOpen (r ! k) \<Longrightarrow> \<not> isOpen (ss ! k) \<Longrightarrow>
   \<exists>n \<in> set ns. 0 \<le> n \<and> nat n < length (tiles b) \<and> \<not> is_bomb (tiles b ! nat n) \<and> k \<in> spread b (nat n)"
proof (induction frames b ss idx and frames b ss ns arbitrary: r and r rule: cascade_cascadeEach.induct)
  case (1 b ss idx)
  then show ?case by simp
next
  case (2 frames b ss idx)
  show ?case
  proof (cases "idx < 0 \<or> idx \<ge> int (length (tiles b)) \<or> \<not> nat idx < length ss
                \<or> isOpen (ss ! nat idx) \<or> is_bomb (tiles b ! nat idx)")
    case True
    with "2.prems" have "r = ss" by (auto split: if_splits)
    with "2.prems" show ?thesis by simp
  next
    case False
    let ?o = "ss[nat idx := (ss ! nat idx)\<lparr>isOpen := True\<rparr>]"
    from False have rng: "0 \<le> idx \<and> nat idx < length (tiles b) \<and> \<not> is_bomb (tiles b ! nat idx)"
      by auto
    show ?thesis
    proof (cases "k = nat idx")
      case True
      with rng show ?thesis by (simp add: spread.origin)
    next
      case kn: False
      then have same: "?o ! k = ss ! k" by simp
      show ?thesis
      proof (cases "is_empty (tiles b ! nat idx)")
        case True
        with False "2.prems" have e: "cascadeEach frames b ?o (neighbours (width b) (height b) idx) = Inr r"
          by (simp add: Let_def)
        from "2.IH"[OF _ _ _ refl True e, of ] False "2.prems" same
        obtain n where n: "n \<in> set (neighbours (width b) (height b) idx)"
          "\<not> is_bomb (tiles b ! nat n)" "k \<in> spread b (nat n)" by auto
        from rng n(1) have "n \<in> set (neighbours (width b) (height b) (int (nat idx)))" by simp
        from spread.onward[OF spread.origin True this n(2)] have "nat n \<in> spread b (nat idx)" .
        with n(3) rng show ?thesis by (auto intro: spread_trans)
      next
        case nonempty: False
        with False "2.prems" have "r = ?o" by (simp add: Let_def)
        with "2.prems" same show ?thesis by simp
      qed
    qed
  qed
next
  case (3 frames b ss)
  then show ?case by simp
next
  case (4 frames b ss n ns)
  from "4.prems" obtain s where s: "cascade frames b ss n = Inr s" "cascadeEach frames b s ns = Inr r"
    by (auto split: sum.splits simp del: cascade.simps)
  from cascade_opens(1)[OF s(1)] have ls: "length s = length ss" by (rule opens_length)
  show ?case
  proof (cases "isOpen (s ! k)")
    case True
    from "4.IH"(1)[OF s(1) "4.prems"(2) True "4.prems"(4)] show ?thesis by simp
  next
    case False
    from "4.IH"(2)[OF s(1) s(2) _ "4.prems"(3) False] ls "4.prems"(2) show ?thesis by auto
  qed
qed

lemma cascadeClosed_flags:
  assumes "cascadeClosed b ss r" "map isOpen r' = map isOpen r" "length (tiles b) \<le> length r"
    "length (tiles b) = nat (width b * height b)"
  shows "cascadeClosed b ss r'"
proof -
  have e: "isOpen (r' ! k) = isOpen (r ! k)" if "k < length (tiles b)" for k
    using map_isOpen_nth[OF assms(2), of k] that assms(3) map_eq_imp_length_eq[OF assms(2)] by simp
  show ?thesis unfolding cascadeClosed_def
  proof (intro allI impI ballI)
    fix k n
    assume k: "k < length (tiles b)"
      and o: "isOpen (r' ! k) \<and> \<not> isOpen (ss ! k) \<and> is_empty (tiles b ! k)"
      and n: "n \<in> set (neighbours (width b) (height b) (int k))" "\<not> is_bomb (tiles b ! nat n)"
    from neighbours_in_tiles[OF assms(4) n(1)] have "nat n < length (tiles b)" by simp
    with assms(1) k o n e show "isOpen (r' ! nat n)" unfolding cascadeClosed_def by simp
  qed
qed

lemma reachable_closed:
  assumes "reachable b ss" "length (tiles b) = nat (width b * height b)"
  shows "length ss = length (tiles b)
       \<and> cascadeClosed b (initialTileStates (width b) (height b)) ss"
  using assms
proof (induction rule: reachable.induct)
  case fresh
  then show ?case by (simp add: cascadeClosed_refl initialTileStates_def)
next
  case (uncover ss frames idx r out)
  let ?init = "initialTileStates (width b) (height b)"
  from uncover.IH[OF uncover.prems] have len: "length ss = length (tiles b)"
    and c: "cascadeClosed b ?init ss" by simp_all
  consider (noop) "r = ss"
    | (bomb) "r = forEachBomb (\<lambda>s. s\<lparr>isOpen := True\<rparr>) (tiles b) ss"
    | (casc) s where "cascade frames b ss idx = Inr s"
        "r = s \<or> r = forEachBomb (\<lambda>s. s\<lparr>isFlagged := True\<rparr>) (tiles b) s"
    using uncover.hyps(2) by (auto simp: uncoverTile_def split: if_splits sum.splits)
  then show ?case
  proof cases
    case noop
    with len c show ?thesis by simp
  next
    case bomb
    have "cascadeClosed b ?init r" unfolding cascadeClosed_def
    proof (intro allI impI ballI)
      fix k n
      assume k: "k < length (tiles b)"
        and o: "isOpen (r ! k) \<and> \<not> isOpen (?init ! k) \<and> is_empty (tiles b ! k)"
        and n: "n \<in> set (neighbours (width b) (height b) (int k))" "\<not> is_bomb (tiles b ! nat n)"
      from neighbours_in_tiles[OF uncover.prems n(1)] have nn: "nat n < length (tiles b)" by simp
      from o have "\<not> is_bomb (tiles b ! k)" by (cases "tiles b ! k") auto
      with bomb k len o have "isOpen (ss ! k)" by (simp add: forEachBomb_nth)
      with c k o n have "isOpen (ss ! nat n)" unfolding cascadeClosed_def by blast
      with bomb nn len n(2) show "isOpen (r ! nat n)" by (simp add: forEachBomb_nth)
    qed
    with bomb len show ?thesis by (simp add: forEachBomb_length)
  next
    case casc
    from cascade_opens(1)[OF casc(1)] have o: "opens b ss s" .
    then have ls: "length s = length ss" by (rule opens_length)
    from len have le: "length (tiles b) \<le> length ss" by simp
    from cascade_closed_new(1)[OF uncover.prems le casc(1)] have "cascadeClosed b ss s" .
    from cascadeClosed_trans[OF c this o uncover.prems le]
    have cs: "cascadeClosed b ?init s" .
    from casc(2) have "map isOpen r = map isOpen s" by (auto simp: forEachBomb_flag_isOpen)
    from cascadeClosed_flags[OF cs this _ uncover.prems] ls len
    have "cascadeClosed b ?init r" by simp
    moreover from casc(2) ls len have "length r = length (tiles b)"
      by (auto simp: forEachBomb_length)
    ultimately show ?thesis by simp
  qed
next
  case (flag ss idx r)
  let ?init = "initialTileStates (width b) (height b)"
  from flag.IH[OF flag.prems] have len: "length ss = length (tiles b)"
    and c: "cascadeClosed b ?init ss" by simp_all
  from flag.hyps(2) have r: "length r = length ss" "map isOpen r = map isOpen ss"
    by (auto simp: toggleFlag_def map_update split: if_splits intro!: nth_equalityI simp: nth_list_update)
  from cascadeClosed_flags[OF c r(2) _ flag.prems] len r(1) show ?case by simp
qed

lemma reachable_neighbours_open:
  assumes "reachable b ss" "length (tiles b) = nat (width b * height b)"
    "k < length (tiles b)" "isOpen (ss ! k)" "is_empty (tiles b ! k)"
    "n \<in> set (neighbours (width b) (height b) (int k))" "\<not> is_bomb (tiles b ! nat n)"
  shows "isOpen (ss ! nat n)"
proof -
  from assms(3) assms(2) have "\<not> isOpen (initialTileStates (width b) (height b) ! k)"
    by (simp add: initialTileStates_def)
  with reachable_closed[OF assms(1,2)] assms(3-7) show ?thesis
    unfolding cascadeClosed_def by blast
qed

lemma zeroRegion_cells:
  assumes "k \<in> zeroRegion b start" "int start < width b * height b" "is_empty (tiles b ! start)"
  shows "int k < width b * height b \<and> is_empty (tiles b ! k)"
  using assms by (induction rule: zeroRegion.induct) (auto simp: adjacent_def)

lemma spread_region:
  assumes "k \<in> spread b start" "0 < width b" "int start < width b * height b"
    "is_empty (tiles b ! start)"
  shows "k \<in> zeroRegion b start \<union> numberedRing b start"
  using assms
proof (induction rule: spread.induct)
  case origin
  then show ?case by (simp add: zeroRegion.seed)
next
  case (onward k n)
  from onward.IH[OF onward.prems] onward.hyps(2) have kr: "k \<in> zeroRegion b start"
    by (cases "tiles b ! k") (auto simp: numberedRing_def)
  from zeroRegion_cells[OF kr onward.prems(2,3)] have "int k < width b * height b" by simp
  from neighbours_adjacent[OF onward.prems(1) this, of n] onward.hyps(3)
  consider "nat n = k" | "adjacent (width b) (height b) k (nat n)" by blast
  then show ?case
  proof cases
    case 1
    with kr show ?thesis by simp
  next
    case 2
    show ?thesis
    proof (cases "tiles b ! nat n")
      case (BombTile i)
      with onward.hyps(4) show ?thesis by simp
    next
      case (NumberTile i c)
      with kr 2 show ?thesis by (auto simp: numberedRing_def)
    next
      case (EmptyTile i)
      with zeroRegion.grow[OF kr 2] show ?thesis by simp
    qed
  qed
qed

lemma region_open:
  assumes "reachable b r" "length (tiles b) = nat (width b * height b)" "0 < width b"
    "int start < width b * height b" "is_empty (tiles b ! start)" "isOpen (r ! start)"
  shows "k \<in> zeroRegion b start \<Longrightarrow> isOpen (r ! k)"
    and "k \<in> numberedRing b start \<Longrightarrow> isOpen (r ! k)"
proof -
  have adj: "isOpen (r ! j)"
    if "i \<in> zeroRegion b start" "isOpen (r ! i)" "adjacent (width b) (height b) i j"
      "\<not> is_bomb (tiles b ! j)" for i j
  proof -
    from zeroRegion_cells[OF that(1) assms(4,5)]
    have i: "int i < width b * height b" "is_empty (tiles b ! i)" by simp_all
    from neighbours_adjacent[OF assms(3) i(1), of "int j"] that(3)
    have "int j \<in> set (neighbours (width b) (height b) (int i))" by simp
    from reachable_neighbours_open[OF assms(1,2) _ that(2) i(2) this] that(4) i(1) assms(2)
    show ?thesis by simp
  qed
  have reg: "isOpen (r ! k)" if "k \<in> zeroRegion b start" for k
    using that
  proof (induction rule: zeroRegion.induct)
    case seed
    from assms(6) show ?case .
  next
    case (grow i j)
    from grow.hyps(3) have "\<not> is_bomb (tiles b ! j)" by (cases "tiles b ! j") auto
    from adj[OF grow.hyps(1) grow.IH grow.hyps(2) this] show ?case .
  qed
  then show "k \<in> zeroRegion b start \<Longrightarrow> isOpen (r ! k)" .
  show "isOpen (r ! k)" if "k \<in> numberedRing b start"
  proof -
    from that obtain i where i: "i \<in> zeroRegion b start" "adjacent (width b) (height b) i k"
      and nk: "is_number (tiles b ! k)" by (auto simp: numberedRing_def)
    from nk have "\<not> is_bomb (tiles b ! k)" by (cases "tiles b ! k") auto
    from adj[OF i(1) reg[OF i(1)] i(2) this] show ?thesis .
  qed
qed

lemma uncover_board5x1:
  "uncoverTile 6 board5x1 (initialTileStates 5 1) 0
     = Inr ([\<lparr>isOpen = True, isFlagged = False\<rparr>, \<lparr>isOpen = True, isFlagged = False\<rparr>,
             \<lparr>isOpen = True, isFlagged = False\<rparr>, \<lparr>isOpen = True, isFlagged = False\<rparr>,
             \<lparr>isOpen = False, isFlagged = True\<rparr>], Some True)"
  by code_simp

lemma reachable_board5x1: "reachable board5x1 (initialTileStates 5 1)"
  using reachable.fresh[of board5x1] by (simp add: board5x1_def)

text \<open>
  Why the state array has to be one the game can be in: in an array with an open cell of
  kind empty whose neighbours are closed, which no game gets to, that cell stops the
  cascade before it has covered the region.
\<close>

lemma open_cell_stops_cascade:
  "uncoverTile 6 board5x1
     [\<lparr>isOpen = False, isFlagged = False\<rparr>, \<lparr>isOpen = True, isFlagged = False\<rparr>,
      \<lparr>isOpen = False, isFlagged = False\<rparr>, \<lparr>isOpen = False, isFlagged = False\<rparr>,
      \<lparr>isOpen = False, isFlagged = False\<rparr>] 0
   = Inr ([\<lparr>isOpen = True, isFlagged = False\<rparr>, \<lparr>isOpen = True, isFlagged = False\<rparr>,
           \<lparr>isOpen = False, isFlagged = False\<rparr>, \<lparr>isOpen = False, isFlagged = False\<rparr>,
           \<lparr>isOpen = False, isFlagged = False\<rparr>], None)"
  by code_simp

lemma placeBombs_returns:
  assumes "distinct draws" "\<forall>i \<in> set draws. i < length p \<and> is_empty (p ! i)"
    "n - k \<le> int (length draws)"
  shows "\<exists>p'. placeBombs p k n draws = Some (Inr p')"
  using assms
proof (induction draws arbitrary: p k)
  case Nil
  then show ?case by simp
next
  case (Cons r draws)
  show ?case
  proof (cases "k < n")
    case False
    then show ?thesis by simp
  next
    case True
    from Cons.prems(2) have r: "r < length p" "is_empty (p ! r)" by simp_all
    have "\<forall>i \<in> set draws. i < length (p[r := BombTile r]) \<and> is_empty (p[r := BombTile r] ! i)"
      using Cons.prems(1,2) by (auto simp: nth_list_update)
    moreover have "n - (k + 1) \<le> int (length draws)" using Cons.prems(3) by simp
    moreover have "distinct draws" using Cons.prems(1) by simp
    ultimately have "\<exists>p'. placeBombs (p[r := BombTile r]) (k + 1) n draws = Some (Inr p')"
      by (intro Cons.IH)
    with True r show ?thesis by simp
  qed
qed

lemma calculateNumbers_returns:
  assumes "length positions = nat (w * h)"
  shows "\<exists>ts. calculateNumbers w h positions idxs = Inr ts"
proof (induction idxs)
  case Nil
  then show ?case by simp
next
  case (Cons k idxs)
  have "\<exists>t. numberTile w h positions k = Inr t"
    using countAdjacentBombs_recount[OF assms, of k] by (auto simp: numberTile_def)
  with Cons show ?case by auto
qed

text \<open>
  Generation returns a board, and throws nothing, when the draws are enough: here the
  draws \<open>0, 1, \<dots>, numBoms - 1\<close>.
\<close>

lemma generateInitialGrid_returns:
  assumes "0 \<le> w * h" "numBoms \<le> w * h"
  shows "\<exists>ts. generateInitialGrid w h numBoms [0..<nat numBoms] = Some (Inr ts)"
proof -
  let ?init = "map EmptyTile [0..<nat (w * h)]"
  have "\<forall>i \<in> set [0..<nat numBoms]. i < length ?init \<and> is_empty (?init ! i)"
    using assms(2) by auto
  moreover have "numBoms - 0 \<le> int (length [0..<nat numBoms])" by simp
  ultimately obtain p where p: "placeBombs ?init 0 numBoms [0..<nat numBoms] = Some (Inr p)"
    using placeBombs_returns[of "[0..<nat numBoms]" ?init numBoms 0] by auto
  have "bombCount ?init = 0" by (simp add: bombCount_def filter_map o_def)
  with placeBombs_count[OF p] have "length p = nat (w * h)" by simp
  from calculateNumbers_returns[OF this] obtain ts
    where "calculateNumbers w h p [0..<length p] = Inr ts" by blast
  with p assms(1) show ?thesis by (simp add: generateInitialGrid_def)
qed

text \<open>
  On the board of one row the calls of \<^verbatim>\<open>cascade\<close> nest once for each cell to the
  right: with room for \<open>n\<close> calls or fewer the stack overflows before the numbered
  cell is reached.
\<close>

lemma rowState_length: "length (rowState n i) = n + 2"
  unfolding rowState_def by (simp only: length_map length_upt diff_zero)

lemma rowState_nth: "k < n + 2 \<Longrightarrow> rowState n i ! k = \<lparr>isOpen = k < i, isFlagged = False\<rparr>"
  unfolding rowState_def by (simp only: nth_map length_upt diff_zero nth_upt add_0)

lemma rowState_fresh: "rowState n 0 = initialTileStates (int n + 2) 1"
proof (rule nth_equalityI)
  show len: "length (rowState n 0) = length (initialTileStates (int n + 2) 1)"
    unfolding initialTileStates_def rowState_length
    by simp
  fix k assume "k < length (rowState n 0)"
  then have k: "k < n + 2" by (simp only: rowState_length)
  then have "initialTileStates (int n + 2) 1 ! k = \<lparr>isOpen = False, isFlagged = False\<rparr>"
    using len unfolding initialTileStates_def rowState_length
    by (simp only: length_replicate nth_replicate)
  with k show "rowState n 0 ! k = initialTileStates (int n + 2) 1 ! k"
    by (simp add: rowState_nth)
qed

lemma rowState_open: "i < n + 2 \<Longrightarrow>
  (rowState n i)[i := (rowState n i ! i)\<lparr>isOpen := True\<rparr>] = rowState n (Suc i)"
  by (rule nth_equalityI) (auto simp: rowState_length rowState_nth nth_list_update less_Suc_eq)

lemma rowBoard_empty: "i < n \<Longrightarrow> tiles (rowBoard n) ! i = EmptyTile i"
  by (simp add: rowBoard_def nth_append)

lemma rowBoard_neighbours:
  "i < n \<Longrightarrow> neighbours (width (rowBoard n)) (height (rowBoard n)) (int i)
     = (if 0 < i then [int i - 1] else []) @ [int i, int i + 1]"
  by (simp add: rowBoard_def neighbours_def Let_def)

lemma cascade_at_open_cell:
  "0 \<le> m \<Longrightarrow> nat m < length ss \<Longrightarrow> isOpen (ss ! nat m) \<Longrightarrow>
   cascade frames b ss m = Inr ss \<or> cascade frames b ss m = Inl RangeError"
  by (cases frames) auto

lemma cascadeEach_overflow:
  "\<forall>m \<in> set before. cascade frames b ss m = Inr ss \<or> cascade frames b ss m = Inl RangeError \<Longrightarrow>
   cascade frames b ss k = Inl RangeError \<Longrightarrow>
   cascadeEach frames b ss (before @ k # after) = Inl RangeError"
  by (induction before) (auto simp del: cascade.simps)

lemma cascade_row_overflow:
  "i + frames \<le> n \<Longrightarrow> cascade frames (rowBoard n) (rowState n i) (int i) = Inl RangeError"
proof (induction frames arbitrary: i)
  case 0
  then show ?case by simp
next
  case (Suc f)
  then have i: "i < n" by simp
  let ?b = "rowBoard n" and ?s = "rowState n (Suc i)"
  have len: "length (tiles ?b) = n + 2" "length (rowState n i) = n + 2" "length ?s = n + 2"
    by (simp_all add: rowBoard_def rowState_length)
  have closed: "\<not> isOpen (rowState n i ! i)" using i by (simp add: rowState_nth)
  have opened: "(rowState n i)[i := (rowState n i ! i)\<lparr>isOpen := True\<rparr>] = ?s"
    using i by (intro rowState_open) simp
  have "cascade f ?b ?s (int (Suc i)) = Inl RangeError" using Suc.prems by (intro Suc.IH) simp
  then have deep: "cascade f ?b ?s (int i + 1) = Inl RangeError" by (simp add: add.commute)
  have "\<forall>m \<in> set ((if 0 < i then [int i - 1] else []) @ [int i]).
          cascade f ?b ?s m = Inr ?s \<or> cascade f ?b ?s m = Inl RangeError"
  proof
    fix m assume "m \<in> set ((if 0 < i then [int i - 1] else []) @ [int i])"
    then have "0 \<le> m \<and> nat m < Suc i \<and> nat m < length ?s" using i len by (auto split: if_splits)
    moreover then have "isOpen (?s ! nat m)" by (simp add: rowState_nth rowState_length)
    ultimately show "cascade f ?b ?s m = Inr ?s \<or> cascade f ?b ?s m = Inl RangeError"
      by (intro cascade_at_open_cell) simp_all
  qed
  from cascadeEach_overflow[OF this deep, of "[]"]
  have "cascadeEach f ?b ?s (((if 0 < i then [int i - 1] else []) @ [int i]) @ [int i + 1]) = Inl RangeError" .
  then have each: "cascadeEach f ?b ?s (neighbours (width ?b) (height ?b) (int i)) = Inl RangeError"
    using rowBoard_neighbours[OF i] by simp
  from i len closed opened each rowBoard_empty[OF i] show ?case
    by (simp add: Let_def)
qed

lemma uncoverTile_row_overflow:
  assumes "frames \<le> n"
  shows "uncoverTile frames (rowBoard n) (initialTileStates (int n + 2) 1) 0 = Inl RangeError"
proof -
  from cascade_row_overflow[of 0 frames n] assms
  have c: "cascade frames (rowBoard n) (initialTileStates (int n + 2) 1) 0 = Inl RangeError"
    by (simp add: rowState_fresh)
  have "\<not> is_bomb (tiles (rowBoard n) ! 0)" by (cases n) (simp_all add: rowBoard_def nth_append)
  with c show ?thesis
    by (simp add: uncoverTile_def initialTileStates_def rowBoard_def nat_add_distrib del: cascade.simps)
qed

text \<open>
  What the cascade reveals whenever it returns: on a board in a state array the game can
  be in, after uncovering a closed cell of kind empty the open cells are those that
  were open before, the cells of the zero region of that cell and the numbered cells of
  the ring around the region, and no others.
\<close>

lemma reveal_is_region_and_ring:
  assumes "wellFormed b tileStates" and "reachable b tileStates"
    and "0 \<le> idx" and "idx < width b * height b"
    and "\<not> isOpen (tileStates ! nat idx)" and "is_empty (tiles b ! nat idx)"
    and u: "uncoverTile frames b tileStates idx = Inr (r, out)"
  shows "length r = length tileStates
       \<and> (\<forall>k<length tileStates.
             (isOpen (r ! k) \<longleftrightarrow>
                isOpen (tileStates ! k)
                \<or> k \<in> zeroRegion b (nat idx) \<union> numberedRing b (nat idx))
           \<and> (is_bomb (tiles b ! k) \<longrightarrow> isOpen (r ! k) = isOpen (tileStates ! k)))"
proof -
  from assms(1) have w: "0 < width b" and lt: "length (tiles b) = nat (width b * height b)"
    and len: "length tileStates = length (tiles b)" by (simp_all add: wellFormed_def)
  from assms(3,4) lt have st: "int (nat idx) < width b * height b" "nat idx < length (tiles b)"
    by simp_all
  from assms(6) have nb: "\<not> is_bomb (tiles b ! nat idx)" by (cases "tiles b ! nat idx") auto
  from u assms(5) nb st len assms(3) obtain s where s: "cascade frames b tileStates idx = Inr s"
    and rs: "r = s \<or> r = forEachBomb (\<lambda>s. s\<lparr>isFlagged := True\<rparr>) (tiles b) s"
    by (auto simp: uncoverTile_def split: if_splits sum.splits simp del: cascade.simps)
  from cascade_opens(1)[OF s] have o: "opens b tileStates s" .
  then have ls: "length s = length tileStates" by (rule opens_length)
  from rs ls have lr: "length r = length tileStates" by (auto simp: forEachBomb_length)
  from rs have "map isOpen r = map isOpen s" by (auto simp: forEachBomb_flag_isOpen)
  then have rsk: "isOpen (r ! k) = isOpen (s ! k)" if "k < length tileStates" for k
    using map_isOpen_nth[of r s k] that lr by simp
  from reachable.uncover[OF assms(2) u] have rr: "reachable b r" .
  from uncoverTile_opens_target[OF assms(1,3,4) u] have tgt: "isOpen (r ! nat idx)" .
  have bombs: "is_bomb (tiles b ! k) \<longrightarrow> isOpen (r ! k) = isOpen (tileStates ! k)"
    if k: "k < length tileStates" for k
  proof
    assume "is_bomb (tiles b ! k)"
    with opens_bomb[OF o k] k len have "s ! k = tileStates ! k" by simp
    with rsk[OF k] show "isOpen (r ! k) = isOpen (tileStates ! k)" by simp
  qed
  have "isOpen (r ! k) \<longleftrightarrow>
           isOpen (tileStates ! k) \<or> k \<in> zeroRegion b (nat idx) \<union> numberedRing b (nat idx)"
    if k: "k < length tileStates" for k
  proof
    assume "isOpen (r ! k)"
    show "isOpen (tileStates ! k) \<or> k \<in> zeroRegion b (nat idx) \<union> numberedRing b (nat idx)"
    proof (cases "isOpen (tileStates ! k)")
      case True
      then show ?thesis by simp
    next
      case False
      from \<open>isOpen (r ! k)\<close> rsk[OF k] have "isOpen (s ! k)" by simp
      from cascade_spread(1)[OF s k this False] have "k \<in> spread b (nat idx)" by simp
      from spread_region[OF this w st(1) assms(6)] show ?thesis by simp
    qed
  next
    assume "isOpen (tileStates ! k) \<or> k \<in> zeroRegion b (nat idx) \<union> numberedRing b (nat idx)"
    then consider "isOpen (tileStates ! k)" | "k \<in> zeroRegion b (nat idx)"
      | "k \<in> numberedRing b (nat idx)" by blast
    then show "isOpen (r ! k)"
    proof cases
      case 1
      with opens_isOpen[OF o k] rsk[OF k] show ?thesis by simp
    next
      case 2
      from region_open(1)[OF rr lt w st(1) assms(6) tgt 2] show ?thesis .
    next
      case 3
      from region_open(2)[OF rr lt w st(1) assms(6) tgt 3] show ?thesis .
    qed
  qed
  with bombs lr show ?thesis by blast
qed

text \<open>
  What the cascade marks whenever it returns: the log has no index twice and at most
  \<open>width * height\<close> entries, and each logged cell was closed before the call and is open
  after it. It returns when the call stack has room for more calls than there are
  closed cells.
\<close>

lemma cascade_marks_each_cell_once:
  assumes "length (tiles b) = nat (width b * height b)"
    and l: "cascadeLog frames b (tileStates, []) idx = Inr (r, log)"
  shows "cascade frames b tileStates idx = Inr r
       \<and> distinct log \<and> length log \<le> nat (width b * height b)
       \<and> (\<forall>k \<in> set log. 0 \<le> k \<and> k < width b * height b
             \<and> \<not> isOpen (tileStates ! nat k) \<and> isOpen (r ! nat k))"
proof -
  from l cascadeLog_cascade(1)[of frames b "(tileStates, [])" idx]
  have r: "cascade frames b tileStates idx = Inr r"
    by (simp del: cascade.simps cascadeLog.simps)
  from cascadeLog_logged(1)[OF l] have d: "distinct log"
    and p: "\<forall>k \<in> set log. 0 \<le> k \<and> nat k < length (tiles b) \<and> nat k < length tileStates
              \<and> \<not> isOpen (tileStates ! nat k) \<and> isOpen (r ! nat k)"
    by (auto simp: logged_def)
  from d p have "length log \<le> length (tiles b)" by (intro distinct_in_range_length) auto
  with r d p assms(1) show ?thesis by auto
qed

lemma cascadeLog_returns:
  assumes "length (tiles b) \<le> length tileStates" and "unopened tileStates < frames"
  shows "\<exists>r log. cascadeLog frames b (tileStates, []) idx = Inr (r, log)"
proof -
  from cascade_returns(1)[OF assms] obtain r where "cascade frames b tileStates idx = Inr r"
    by blast
  with cascadeLog_cascade(1)[of frames b "(tileStates, [])" idx] show ?thesis
    by (cases "cascadeLog frames b (tileStates, []) idx")
       (auto simp del: cascade.simps cascadeLog.simps)
qed

lemma cascadeLog_board5x1:
  "cascadeLog 6 board5x1 (initialTileStates 5 1, []) 0
     = Inr ([\<lparr>isOpen = True, isFlagged = False\<rparr>, \<lparr>isOpen = True, isFlagged = False\<rparr>,
             \<lparr>isOpen = True, isFlagged = False\<rparr>, \<lparr>isOpen = True, isFlagged = False\<rparr>,
             \<lparr>isOpen = False, isFlagged = False\<rparr>], [0, 1, 2, 3])"
  by code_simp

lemma wellFormed_rowBoard: "wellFormed (rowBoard n) (initialTileStates (int n + 2) 1)"
  by (simp add: wellFormed_def rowBoard_def initialTileStates_def nat_add_distrib)

lemma reachable_rowBoard: "reachable (rowBoard n) (initialTileStates (int n + 2) 1)"
  using reachable.fresh[of "rowBoard n"] by (simp add: rowBoard_def)

lemma rowBoard_first_cell:
  assumes "0 < n"
  shows "\<not> isOpen (initialTileStates (int n + 2) 1 ! 0) \<and> is_empty (tiles (rowBoard n) ! 0)"
  using assms rowBoard_empty[of 0 n] rowState_nth[of 0 n 0] by (simp add: rowState_fresh)

text \<open>
  The board of one row is a board of the game: \<^verbatim>\<open>generateInitialGrid\<close> returns it for
  width \<open>n + 2\<close>, height 1 and one bomb when the draw is the last column.
\<close>

lemma calculateNumbers_from_nth:
  "length ts = length idxs \<Longrightarrow>
   \<forall>j<length idxs. numberTile w h positions (idxs ! j) = Inr (ts ! j) \<Longrightarrow>
   calculateNumbers w h positions idxs = Inr ts"
proof (induction idxs arbitrary: ts)
  case Nil
  then show ?case by simp
next
  case (Cons i idxs)
  then obtain t rest where ts: "ts = t # rest" by (cases ts) auto
  with Cons.prems have "numberTile w h positions i = Inr t" by auto
  moreover have "calculateNumbers w h positions idxs = Inr rest"
    using Cons.prems ts by (intro Cons.IH) auto
  ultimately show ?case using ts by simp
qed

lemma row_neighbours:
  "k < n + 2 \<Longrightarrow> neighbours (int n + 2) 1 (int k)
     = (if 0 < k then [int k - 1] else []) @ [int k] @ (if k < Suc n then [int k + 1] else [])"
  by (simp add: neighbours_def Let_def)

lemma rowBoard_generated:
  "generateInitialGrid (int n + 2) 1 1 [Suc n] = Some (Inr (tiles (rowBoard n)))"
proof -
  let ?e = "map EmptyTile [0..<n + 2]"
  let ?p = "?e[Suc n := BombTile (Suc n)]"
  have lp: "length ?p = n + 2" by (simp only: length_list_update length_map length_upt diff_zero)
  have p0: "?e ! j = EmptyTile j" if "j < n + 2" for j
    using that by (simp only: nth_map length_upt diff_zero nth_upt add_0)
  have p: "?p ! j = (if j = Suc n then BombTile (Suc n) else EmptyTile j)" if "j < n + 2" for j
    using that p0[OF that] by (simp only: nth_list_update length_map length_upt diff_zero) simp
  have place: "placeBombs ?e 0 1 [Suc n] = Some (Inr ?p)"
    using p0[of "Suc n"] by (simp del: upt_Suc)
  have lt: "length (tiles (rowBoard n)) = n + 2" by (simp add: rowBoard_def)
  have t: "tiles (rowBoard n) ! j
         = (if j = Suc n then BombTile (Suc n) else if j = n then NumberTile n 1 else EmptyTile j)"
    if "j < n + 2" for j
    using that by (auto simp: rowBoard_def nth_append less_Suc_eq)
  have num: "numberTile (int n + 2) 1 ?p j = Inr (tiles (rowBoard n) ! j)" if j: "j < n + 2" for j
  proof (cases "j = Suc n")
    case True
    with p[OF j] t[OF j] show ?thesis by (simp add: numberTile_def del: upt_Suc)
  next
    case False
    with j have jn: "j < Suc n" by simp
    have "countBombsAt ?p (neighbours (int n + 2) 1 (int j)) 0 = Inr (if j = n then 1 else 0)"
    proof (cases "0 < j")
      case True
      then have "nat (int j - 1) = j - 1" "j - 1 < n + 2" "j - 1 \<noteq> Suc n" using j by simp_all
      with p[of "j - 1"] have a: "\<not> is_bomb (?p ! nat (int j - 1))" "nat (int j - 1) < length ?p"
        using lp by simp_all
      have b: "\<not> is_bomb (?p ! j)" using p[OF j] False by simp
      have c: "is_bomb (?p ! Suc j) = (j = n)" using p[of "Suc j"] jn by simp
      have d: "nat (int j + 1) = Suc j" by simp
      from True jn a b c d lp j show ?thesis
        unfolding row_neighbours[OF j] by (simp del: upt_Suc list_update.simps)
    next
      case f: False
      have b: "\<not> is_bomb (?p ! j)" using p[OF j] False by simp
      have c: "is_bomb (?p ! Suc j) = (j = n)" using p[of "Suc j"] jn by simp
      have d: "nat (int j + 1) = Suc j" by simp
      from f jn b c d lp j show ?thesis
        unfolding row_neighbours[OF j] by (simp del: upt_Suc list_update.simps)
    qed
    with False p[OF j] t[OF j] show ?thesis
      by (simp add: numberTile_def countAdjacentBombs_def del: upt_Suc)
  qed
  have "calculateNumbers (int n + 2) 1 ?p [0..<length ?p] = Inr (tiles (rowBoard n))"
  proof (rule calculateNumbers_from_nth)
    show "length (tiles (rowBoard n)) = length [0..<length ?p]" using lp lt by simp
    show "\<forall>j<length [0..<length ?p].
            numberTile (int n + 2) 1 ?p ([0..<length ?p] ! j) = Inr (tiles (rowBoard n) ! j)"
      using num lp by (simp del: upt_Suc)
  qed
  with place show ?thesis
    by (simp add: generateInitialGrid_def nat_add_distrib del: upt_Suc placeBombs.simps)
qed

section \<open>The claims\<close>

text \<open>
  C1. The reveal does not cover the region on every board: whatever room the call stack
  has, on the board of one row with more cells of kind empty than that before the
  numbered cell and the bomb, in the state array of a new game, cell 0 is closed and of
  kind empty, and uncovering it throws \<^verbatim>\<open>RangeError\<close> out of \<^verbatim>\<open>uncoverTile\<close> before
  \<^verbatim>\<open>setTileStates\<close> is reached, so no cell is revealed. With room for 20000 calls and one
  cell more, that is the board of 20003 columns. (Lemma \<open>reveal_is_region_and_ring\<close>
  is what holds of a reveal that returns.)
\<close>

theorem reveal_overflows_call_stack:
  "wellFormed (rowBoard (Suc (frames + k))) (initialTileStates (int (Suc (frames + k)) + 2) 1)
   \<and> reachable (rowBoard (Suc (frames + k))) (initialTileStates (int (Suc (frames + k)) + 2) 1)
   \<and> \<not> isOpen (initialTileStates (int (Suc (frames + k)) + 2) 1 ! 0)
   \<and> is_empty (tiles (rowBoard (Suc (frames + k))) ! 0)
   \<and> uncoverTile frames (rowBoard (Suc (frames + k)))
         (initialTileStates (int (Suc (frames + k)) + 2) 1) 0 = Inl RangeError"
  using uncoverTile_row_overflow[of frames "Suc (frames + k)"]
    wellFormed_rowBoard[of "Suc (frames + k)"] reachable_rowBoard[of "Suc (frames + k)"]
    rowBoard_first_cell[of "Suc (frames + k)"]
  by simp

text \<open>
  C2. A board that \<^verbatim>\<open>generateInitialGrid\<close> returns for \<open>width \<ge> 1\<close>, \<open>height \<ge> 1\<close> and
  \<open>1 \<le> numBoms \<le> width * height - 1\<close>, whatever the random draws, has
  \<open>width * height\<close> cells, exactly \<open>numBoms\<close> of them bombs, and every other cell \<open>k\<close>
  is \<^verbatim>\<open>{index: k, type: 'number', adjacentBombs: c}\<close> when the recount \<open>c\<close> of its eight
  neighbours on the returned board is positive and \<^verbatim>\<open>{index: k, type: 'empty'}\<close>
  otherwise.
\<close>

theorem generated_board_is_counted:
  assumes "1 \<le> w" and "1 \<le> h" and "1 \<le> numBoms" and "numBoms \<le> w * h - 1"
    and "generateInitialGrid w h numBoms draws = Some (Inr ts)"
  shows "length ts = nat (w * h) \<and> bombCount ts = nat numBoms
       \<and> (\<forall>k<length ts. \<not> is_bomb (ts ! k) \<longrightarrow>
             ts ! k = (if recount w h ts k > 0 then NumberTile k (recount w h ts k)
                       else EmptyTile k))"
proof -
  let ?init = "map EmptyTile [0..<nat (w * h)]"
  from assms(1,2) have "\<not> w * h < 0" by (simp add: zero_le_mult_iff not_less)
  with assms(5) obtain p where p: "placeBombs ?init 0 numBoms draws = Some (Inr p)"
    and c: "calculateNumbers w h p [0..<length p] = Inr ts"
    by (auto simp: generateInitialGrid_def split: option.splits sum.splits)
  have "bombCount ?init = 0" by (simp add: bombCount_def filter_map o_def)
  with placeBombs_count[OF p] assms(3) have lp: "length p = nat (w * h)"
    and bp: "bombCount p = nat numBoms" by auto
  from calculateNumbers_nth[OF c] have lt: "length ts = length p"
    and nt: "\<And>k. k < length p \<Longrightarrow> numberTile w h p k = Inr (ts ! k)" by auto
  have same: "\<And>k. k < length p \<Longrightarrow> is_bomb (ts ! k) = is_bomb (p ! k)"
    using nt numberTile_is_bomb by blast
  have bt: "bombCount ts = bombCount p" using lt same by (intro bombCount_cong) auto
  have "ts ! k = (if recount w h ts k > 0 then NumberTile k (recount w h ts k) else EmptyTile k)"
    if k: "k < length ts" and nb: "\<not> is_bomb (ts ! k)" for k
  proof -
    from k lt same nb have nbp: "\<not> is_bomb (p ! k)" by simp
    have "recount w h ts k = recount w h p k"
      using same lp by (intro recount_cong) simp
    moreover have "countAdjacentBombs w h k p = Inr (recount w h p k)"
      using lp nbp by (rule countAdjacentBombs_recount)
    moreover from nt k lt have "numberTile w h p k = Inr (ts ! k)" by simp
    ultimately show ?thesis using nbp by (auto simp: numberTile_def)
  qed
  with lt lp bt bp show ?thesis by simp
qed

theorem generated_board_is_counted_witness:
  "(1::int) \<le> 3 \<and> (1::int) \<le> 3 \<and> (1::int) \<le> 2 \<and> (2::int) \<le> 3 * 3 - 1
   \<and> generateInitialGrid 3 3 2 [4, 4, 0]
       = Some (Inr [BombTile 0, NumberTile 1 2, NumberTile 2 1, NumberTile 3 2, BombTile 4,
                    NumberTile 5 1, NumberTile 6 1, NumberTile 7 1, NumberTile 8 1])
   \<and> bombCount [BombTile 0, NumberTile 1 2, NumberTile 2 1, NumberTile 3 2, BombTile 4,
                 NumberTile 5 1, NumberTile 6 1, NumberTile 7 1, NumberTile 8 1] = nat 2"
proof -
  let ?ts = "[BombTile 0, NumberTile 1 2, NumberTile 2 1, NumberTile 3 2, BombTile 4,
              NumberTile 5 1, NumberTile 6 1, NumberTile 7 1, NumberTile 8 1]"
  have g: "generateInitialGrid 3 3 2 [4, 4, 0] = Some (Inr ?ts)"
    by code_simp
  have h: "(1::int) \<le> 3" "(1::int) \<le> 2" "(2::int) \<le> 3 * 3 - 1" by simp_all
  from generated_board_is_counted[OF h(1) h(1) h(2) h(3) g] have "bombCount ?ts = nat 2" by blast
  with g h show ?thesis by blast
qed

text \<open>
  C3. Uncovering a closed bomb opens every bomb of the board, leaves \<^verbatim>\<open>isOpen\<close> of
  every other cell and \<^verbatim>\<open>isFlagged\<close> of every cell as they were, and calls
  \<^verbatim>\<open>onGameOver(false)\<close>: the outcome is \<open>Lost\<close>.
\<close>

theorem uncover_bomb_reveals_all_bombs:
  assumes "wellFormed b tileStates" and "0 \<le> idx" and "idx < width b * height b"
    and "\<not> isOpen (tileStates ! nat idx)" and "is_bomb (tiles b ! nat idx)"
  shows "\<exists>r out. uncoverTile frames b tileStates idx = Inr (r, out) \<and> outcomeOf out = Lost
           \<and> length r = length tileStates
           \<and> (\<forall>k<length tileStates.
                 (is_bomb (tiles b ! k) \<longrightarrow> isOpen (r ! k))
               \<and> (\<not> is_bomb (tiles b ! k) \<longrightarrow> isOpen (r ! k) = isOpen (tileStates ! k))
               \<and> isFlagged (r ! k) = isFlagged (tileStates ! k))"
  using assms
  by (auto simp: wellFormed_def uncoverTile_def forEachBomb_length forEachBomb_nth)

theorem uncover_bomb_reveals_all_bombs_witness:
  "wellFormed board2x1 (initialTileStates 2 1) \<and> (0::int) \<le> 1 \<and> 1 < width board2x1 * height board2x1
   \<and> \<not> isOpen (initialTileStates 2 1 ! nat 1) \<and> is_bomb (tiles board2x1 ! nat 1)
   \<and> (\<exists>r out. uncoverTile 3 board2x1 (initialTileStates 2 1) 1 = Inr (r, out) \<and> outcomeOf out = Lost
         \<and> length r = length (initialTileStates 2 1)
         \<and> (\<forall>k<length (initialTileStates 2 1).
               (is_bomb (tiles board2x1 ! k) \<longrightarrow> isOpen (r ! k))
             \<and> (\<not> is_bomb (tiles board2x1 ! k) \<longrightarrow> isOpen (r ! k) = isOpen (initialTileStates 2 1 ! k))
             \<and> isFlagged (r ! k) = isFlagged (initialTileStates 2 1 ! k)))"
proof -
  have h: "(0::int) \<le> 1" "1 < width board2x1 * height board2x1"
    "\<not> isOpen (initialTileStates 2 1 ! nat 1)" "is_bomb (tiles board2x1 ! nat 1)"
    by (simp_all add: board2x1_def initialTileStates_def)
  from uncover_bomb_reveals_all_bombs[OF wellFormed_board2x1 h] wellFormed_board2x1 h
  show ?thesis by blast
qed

text \<open>
  C4. A reveal of a cell that is no bomb is \<^verbatim>\<open>uncoverTile\<close> on a closed cell that is no
  bomb (on an open cell it returns at line 308 and reveals nothing). Whenever it
  returns: the cell is open, every cell open before is open, \<^verbatim>\<open>isOpen\<close> of every bomb
  is what it was, and when no cell that is no bomb is left closed, \<^verbatim>\<open>onGameOver(true)\<close>
  is called (the outcome is \<open>Won\<close>), every bomb is flagged and no other flag changes;
  otherwise \<^verbatim>\<open>onGameOver\<close> is not called (the outcome is \<open>InProgress\<close>) and no flag
  changes. It does return when the call stack has room for more calls than the board
  has cells. The witness is the board of two cells with one bomb, the bomb right or
  left: uncovering its one safe cell wins and flags the bomb.
\<close>

theorem win_check_after_reveal:
  assumes "wellFormed b tileStates" and "0 \<le> idx" and "idx < width b * height b"
    and "\<not> isOpen (tileStates ! nat idx)" and "\<not> is_bomb (tiles b ! nat idx)"
  shows "(\<forall>r out. uncoverTile frames b tileStates idx = Inr (r, out) \<longrightarrow>
            length r = length tileStates \<and> isOpen (r ! nat idx)
            \<and> (\<forall>k<length tileStates.
                  (isOpen (tileStates ! k) \<longrightarrow> isOpen (r ! k))
                \<and> (is_bomb (tiles b ! k) \<longrightarrow> isOpen (r ! k) = isOpen (tileStates ! k)))
            \<and> (if length (filter (\<lambda>k. \<not> is_bomb (tiles b ! k) \<and> \<not> isOpen (r ! k))
                             [0..<length (tiles b)]) = 0
                then outcomeOf out = Won
                     \<and> (\<forall>k<length tileStates.
                           if is_bomb (tiles b ! k) then isFlagged (r ! k)
                           else isFlagged (r ! k) = isFlagged (tileStates ! k))
                else outcomeOf out = InProgress
                     \<and> (\<forall>k<length tileStates. isFlagged (r ! k) = isFlagged (tileStates ! k))))
       \<and> (nat (width b * height b) < frames \<longrightarrow>
            (\<exists>r out. uncoverTile frames b tileStates idx = Inr (r, out)))"
proof (rule conjI; intro allI impI)
  assume "nat (width b * height b) < frames"
  from uncoverTile_returns[OF assms(1-3) this]
  show "\<exists>r out. uncoverTile frames b tileStates idx = Inr (r, out)" .
next
  fix r out
  assume u: "uncoverTile frames b tileStates idx = Inr (r, out)"
  let ?n = "\<lambda>r. length (filter (\<lambda>k. \<not> is_bomb (tiles b ! k) \<and> \<not> isOpen (r ! k))
                            [0..<length (tiles b)])"
  from assms(1) have len: "length (tiles b) = length tileStates" by (simp add: wellFormed_def)
  from assms len have inr: "0 \<le> idx \<and> nat idx < length tileStates \<and> nat idx < length (tiles b)"
    by (auto simp: wellFormed_def)
  from u inr assms(4,5) obtain s where s: "cascade frames b tileStates idx = Inr s"
    by (auto simp: uncoverTile_def split: sum.splits simp del: cascade.simps)
  then have o: "opens b tileStates s" by (rule cascade_opens(1))
  then have ls: "length s = length tileStates" by (rule opens_length)
  with len have cnt: "unopenedNonBombs (tiles b) s = Inr (?n s)"
    by (intro unopenedNonBombs_returns) simp
  from uncoverTile_opens_target[OF assms(1-3) u] have tgt: "isOpen (r ! nat idx)" .
  from uncoverTile_opens[OF u] have lr: "length r = length tileStates"
    and mono: "\<forall>k<length tileStates. isOpen (tileStates ! k) \<longrightarrow> isOpen (r ! k)" by simp_all
  have rs: "(?n s = 0 \<and> r = forEachBomb (\<lambda>s. s\<lparr>isFlagged := True\<rparr>) (tiles b) s \<and> out = Some True)
          \<or> (?n s \<noteq> 0 \<and> r = s \<and> out = None)"
    using u s cnt inr assms(4,5)
    by (auto simp: uncoverTile_def simp del: cascade.simps split: if_splits)
  then have "map isOpen r = map isOpen s" by (auto simp: forEachBomb_flag_isOpen)
  then have rsk: "isOpen (r ! k) = isOpen (s ! k)" if "k < length tileStates" for k
    using map_isOpen_nth[of r s k] that lr by simp
  have bombs: "\<forall>k<length tileStates. is_bomb (tiles b ! k) \<longrightarrow> isOpen (r ! k) = isOpen (tileStates ! k)"
  proof (intro allI impI)
    fix k assume k: "k < length tileStates" and "is_bomb (tiles b ! k)"
    with opens_bomb[OF o k] len have "s ! k = tileStates ! k" by simp
    with rsk[OF k] show "isOpen (r ! k) = isOpen (tileStates ! k)" by simp
  qed
  have "?n r = ?n s" using rsk len by (intro arg_cong[where f=length] filter_cong) auto
  have win: "if ?n r = 0
             then outcomeOf out = Won
                  \<and> (\<forall>k<length tileStates.
                        if is_bomb (tiles b ! k) then isFlagged (r ! k)
                        else isFlagged (r ! k) = isFlagged (tileStates ! k))
             else outcomeOf out = InProgress
                  \<and> (\<forall>k<length tileStates. isFlagged (r ! k) = isFlagged (tileStates ! k))"
  proof (cases "?n s = 0")
    case True
    with rs have r: "r = forEachBomb (\<lambda>s. s\<lparr>isFlagged := True\<rparr>) (tiles b) s" "out = Some True"
      by auto
    have "\<forall>k<length tileStates.
            if is_bomb (tiles b ! k) then isFlagged (r ! k)
            else isFlagged (r ! k) = isFlagged (tileStates ! k)"
      using len ls opens_isFlagged[OF o] unfolding r(1) by (simp add: forEachBomb_nth)
    with True r(2) \<open>?n r = ?n s\<close> show ?thesis by simp
  next
    case False
    with rs have "r = s" "out = None" by auto
    with False \<open>?n r = ?n s\<close> opens_isFlagged[OF o] show ?thesis by simp
  qed
  from lr tgt mono bombs win
  show "length r = length tileStates \<and> isOpen (r ! nat idx)
        \<and> (\<forall>k<length tileStates.
              (isOpen (tileStates ! k) \<longrightarrow> isOpen (r ! k))
            \<and> (is_bomb (tiles b ! k) \<longrightarrow> isOpen (r ! k) = isOpen (tileStates ! k)))
        \<and> (if ?n r = 0
            then outcomeOf out = Won
                 \<and> (\<forall>k<length tileStates.
                       if is_bomb (tiles b ! k) then isFlagged (r ! k)
                       else isFlagged (r ! k) = isFlagged (tileStates ! k))
            else outcomeOf out = InProgress
                 \<and> (\<forall>k<length tileStates. isFlagged (r ! k) = isFlagged (tileStates ! k)))"
    by simp
qed

theorem win_check_after_reveal_witness:
  "wellFormed board2x1 (initialTileStates 2 1) \<and> (0::int) \<le> 0 \<and> 0 < width board2x1 * height board2x1
   \<and> \<not> isOpen (initialTileStates 2 1 ! nat 0) \<and> \<not> is_bomb (tiles board2x1 ! nat 0)
   \<and> nat (width board2x1 * height board2x1) < 3
   \<and> (\<exists>r out. uncoverTile 3 board2x1 (initialTileStates 2 1) 0 = Inr (r, out)
         \<and> r = [\<lparr>isOpen = True, isFlagged = False\<rparr>, \<lparr>isOpen = False, isFlagged = True\<rparr>]
         \<and> outcomeOf out = Won \<and> isOpen (r ! nat 0) \<and> isFlagged (r ! 1))
   \<and> uncoverTile 3 board2x1_left (initialTileStates 2 1) 1
       = Inr ([\<lparr>isOpen = False, isFlagged = True\<rparr>, \<lparr>isOpen = True, isFlagged = False\<rparr>], Some True)"
proof -
  have h: "(0::int) \<le> 0" "0 < width board2x1 * height board2x1"
    "\<not> isOpen (initialTileStates 2 1 ! nat 0)" "\<not> is_bomb (tiles board2x1 ! nat 0)"
    by (simp_all add: board2x1_def initialTileStates_def)
  have f: "nat (width board2x1 * height board2x1) < 3" by (simp add: board2x1_def)
  let ?r = "[\<lparr>isOpen = True, isFlagged = False\<rparr>, \<lparr>isOpen = False, isFlagged = True\<rparr>]"
  from win_check_after_reveal[OF wellFormed_board2x1 h, of 3] uncover_board2x1
  have q: "isOpen (?r ! nat 0)"
    and w: "if length (filter (\<lambda>k. \<not> is_bomb (tiles board2x1 ! k) \<and> \<not> isOpen (?r ! k))
                            [0..<length (tiles board2x1)]) = 0
            then outcomeOf (Some True) = Won
                 \<and> (\<forall>k<length (initialTileStates 2 1).
                       if is_bomb (tiles board2x1 ! k) then isFlagged (?r ! k)
                       else isFlagged (?r ! k) = isFlagged (initialTileStates 2 1 ! k))
            else outcomeOf (Some True) = InProgress
                 \<and> (\<forall>k<length (initialTileStates 2 1).
                       isFlagged (?r ! k) = isFlagged (initialTileStates 2 1 ! k))"
    by blast+
  have "length (filter (\<lambda>k. \<not> is_bomb (tiles board2x1 ! k) \<and> \<not> isOpen (?r ! k))
                  [0..<length (tiles board2x1)]) = 0"
    by (simp add: board2x1_def numeral_2_eq_2)
  with w have "outcomeOf (Some True) = Won" by simp
  with q uncover_board2x1 uncover_board2x1_left h f wellFormed_board2x1 show ?thesis by simp
qed

text \<open>
  C5. Two state arrays that agree on every \<^verbatim>\<open>isOpen\<close> (and so differ in flags at most)
  give, for every board and index, the same result of \<^verbatim>\<open>uncoverTile\<close> up to flags:
  the same exception, or the same \<^verbatim>\<open>isOpen\<close> fields and the same call of
  \<^verbatim>\<open>onGameOver\<close>.
\<close>

theorem flags_do_not_alter_reveal:
  assumes "map isOpen ss1 = map isOpen ss2"
  shows "revealedAndOutcome (uncoverTile frames b ss1 idx) = revealedAndOutcome (uncoverTile frames b ss2 idx)"
proof -
  from assms have len: "length ss1 = length ss2" by (rule map_eq_imp_length_eq)
  show ?thesis
  proof (cases "0 \<le> idx \<and> nat idx < length ss1")
    case False
    with len show ?thesis by (simp add: uncoverTile_def)
  next
    case True
    with map_isOpen_nth[OF assms, of "nat idx"]
    have op: "isOpen (ss1 ! nat idx) = isOpen (ss2 ! nat idx)" by simp
    show ?thesis
    proof (cases "isOpen (ss1 ! nat idx) \<or> \<not> nat idx < length (tiles b) \<or> is_bomb (tiles b ! nat idx)")
      case c: True
      with True len op assms forEachBomb_open_flags[OF assms, of "tiles b"] show ?thesis
        by (auto simp: uncoverTile_def revealedAndOutcome_def)
    next
      case c: False
      from cascade_flags(1)[OF assms, of frames b idx]
      have r: "rel_sum (=) (\<lambda>r1 r2. map isOpen r1 = map isOpen r2) (cascade frames b ss1 idx) (cascade frames b ss2 idx)" .
      show ?thesis
      proof (cases "cascade frames b ss1 idx")
        case (Inl e)
        with r have "cascade frames b ss2 idx = Inl e"
          by (cases "cascade frames b ss2 idx") (simp_all del: cascade.simps)
        with Inl c True len op show ?thesis
          by (simp add: uncoverTile_def revealedAndOutcome_def)
      next
        case (Inr s1)
        with r obtain s2 where s2: "cascade frames b ss2 idx = Inr s2" "map isOpen s1 = map isOpen s2"
          by (cases "cascade frames b ss2 idx") (simp_all del: cascade.simps)
        from unopenedNonBombs_flags[OF s2(2), of "tiles b"] Inr s2 c True len op
        show ?thesis
          by (auto simp: uncoverTile_def revealedAndOutcome_def forEachBomb_flag_isOpen
              split: sum.splits)
      qed
    qed
  qed
qed

theorem flags_do_not_alter_reveal_witness:
  "map isOpen (initialTileStates 5 1) = map isOpen (replicate 5 \<lparr>isOpen = False, isFlagged = True\<rparr>)
   \<and> revealedAndOutcome (uncoverTile 6 board5x1 (replicate 5 \<lparr>isOpen = False, isFlagged = True\<rparr>) 0)
       = Inr ([True, True, True, True, False], Some True)"
proof -
  have m: "map isOpen (initialTileStates 5 1)
         = map isOpen (replicate 5 \<lparr>isOpen = False, isFlagged = True\<rparr>)"
    by (simp add: initialTileStates_def)
  have "revealedAndOutcome (uncoverTile 6 board5x1 (initialTileStates 5 1) 0)
      = Inr ([True, True, True, True, False], Some True)"
    by code_simp
  with flags_do_not_alter_reveal[OF m, of 6 board5x1 0] m show ?thesis by simp
qed

text \<open>
  C6. With an index in range: when the cell is open already, \<^verbatim>\<open>uncoverTile\<close> returns at
  its first line, so the array is the one given and \<^verbatim>\<open>onGameOver\<close> is not called; and
  whatever the cell, on the array a first call returns, a second call with the same
  index is that no-op. A first call returns whenever the call stack has room for more
  calls than the board has cells.
\<close>

theorem uncover_revealed_is_noop:
  assumes "wellFormed b tileStates" and "0 \<le> idx" and "idx < width b * height b"
  shows "(isOpen (tileStates ! nat idx) \<longrightarrow>
            uncoverTile frames b tileStates idx = Inr (tileStates, None))
       \<and> (\<forall>r out. uncoverTile frames b tileStates idx = Inr (r, out) \<longrightarrow>
              uncoverTile frames b r idx = Inr (r, None))
       \<and> (nat (width b * height b) < frames \<longrightarrow>
            (\<exists>r out. uncoverTile frames b tileStates idx = Inr (r, out)
                \<and> uncoverTile frames b r idx = Inr (r, None)))"
proof -
  from assms have 1: "isOpen (tileStates ! nat idx) \<longrightarrow>
      uncoverTile frames b tileStates idx = Inr (tileStates, None)"
    by (auto simp: uncoverTile_def wellFormed_def)
  have 2: "uncoverTile frames b r idx = Inr (r, None)"
    if r: "uncoverTile frames b tileStates idx = Inr (r, out)" for r out
  proof -
    from uncoverTile_opens_target[OF assms r] have "isOpen (r ! nat idx)" .
    moreover from uncoverTile_opens[OF r] have "length r = length tileStates" by simp
    ultimately show ?thesis
      using assms by (auto simp: uncoverTile_def wellFormed_def)
  qed
  have 3: "\<exists>r out. uncoverTile frames b tileStates idx = Inr (r, out)
              \<and> uncoverTile frames b r idx = Inr (r, None)"
    if "nat (width b * height b) < frames"
    using uncoverTile_returns[OF assms that] 2 by blast
  from 1 2 3 show ?thesis by blast
qed

theorem uncover_revealed_is_noop_witness:
  "wellFormed board2x1 [\<lparr>isOpen = True, isFlagged = False\<rparr>, \<lparr>isOpen = False, isFlagged = True\<rparr>]
   \<and> (0::int) \<le> 0 \<and> 0 < width board2x1 * height board2x1
   \<and> isOpen ([\<lparr>isOpen = True, isFlagged = False\<rparr>, \<lparr>isOpen = False, isFlagged = True\<rparr>] ! nat 0)
   \<and> nat (width board2x1 * height board2x1) < 3
   \<and> uncoverTile 3 board2x1 [\<lparr>isOpen = True, isFlagged = False\<rparr>, \<lparr>isOpen = False, isFlagged = True\<rparr>] 0
       = Inr ([\<lparr>isOpen = True, isFlagged = False\<rparr>, \<lparr>isOpen = False, isFlagged = True\<rparr>], None)
   \<and> uncoverTile 3 board2x1 (initialTileStates 2 1) 0
       = Inr ([\<lparr>isOpen = True, isFlagged = False\<rparr>, \<lparr>isOpen = False, isFlagged = True\<rparr>], Some True)"
proof -
  let ?ss = "[\<lparr>isOpen = True, isFlagged = False\<rparr>, \<lparr>isOpen = False, isFlagged = True\<rparr>]"
  have wf: "wellFormed board2x1 ?ss"
    by (simp add: wellFormed_def board2x1_def)
  have h: "(0::int) \<le> 0" "0 < width board2x1 * height board2x1"
    by (simp_all add: board2x1_def)
  have f: "nat (width board2x1 * height board2x1) < 3" by (simp add: board2x1_def)
  have o: "isOpen (?ss ! nat 0)" by simp
  from uncover_revealed_is_noop[OF wellFormed_board2x1 h, of 3] uncover_board2x1
  have "uncoverTile 3 board2x1 ?ss 0 = Inr (?ss, None)" by blast
  with uncover_board2x1 o wf h f show ?thesis by blast
qed

text \<open>
  C7. For an index in range, \<^verbatim>\<open>toggleFlag\<close> returns an array of the same length in which
  \<^verbatim>\<open>isFlagged\<close> of that cell is negated, whether the cell is open or not, every
  \<^verbatim>\<open>isOpen\<close> is as before and every other cell is unchanged. The function returns the
  array only: there is no outcome.
\<close>

theorem toggleFlag_flips_one_flag:
  assumes "wellFormed b tileStates" and "0 \<le> idx" and "idx < width b * height b"
  shows "\<exists>r. toggleFlag tileStates idx = Inr r \<and> length r = length tileStates
           \<and> isFlagged (r ! nat idx) = (\<not> isFlagged (tileStates ! nat idx))
           \<and> (\<forall>k<length tileStates. isOpen (r ! k) = isOpen (tileStates ! k))
           \<and> (\<forall>k<length tileStates. k \<noteq> nat idx \<longrightarrow> r ! k = tileStates ! k)"
  using assms by (auto simp: wellFormed_def toggleFlag_def nth_list_update)

theorem toggleFlag_flips_one_flag_witness:
  "wellFormed board2x1 (initialTileStates 2 1) \<and> (0::int) \<le> 1 \<and> 1 < width board2x1 * height board2x1
   \<and> (\<exists>r. toggleFlag (initialTileStates 2 1) 1 = Inr r
         \<and> length r = length (initialTileStates 2 1)
         \<and> isFlagged (r ! nat 1) = (\<not> isFlagged (initialTileStates 2 1 ! nat 1))
         \<and> (\<forall>k<length (initialTileStates 2 1). isOpen (r ! k) = isOpen (initialTileStates 2 1 ! k))
         \<and> (\<forall>k<length (initialTileStates 2 1). k \<noteq> nat 1 \<longrightarrow> r ! k = initialTileStates 2 1 ! k))"
proof -
  have h: "(0::int) \<le> 1" "1 < width board2x1 * height board2x1"
    by (simp_all add: board2x1_def)
  from toggleFlag_flips_one_flag[OF wellFormed_board2x1 h] wellFormed_board2x1 h
  show ?thesis by blast
qed

text \<open>
  C8. \<^verbatim>\<open>isOpen\<close> never goes back to \<open>False\<close>: whatever the board, the state array and
  the index, an array returned by \<^verbatim>\<open>uncoverTile\<close> or by \<^verbatim>\<open>toggleFlag\<close> has the length
  of the one given and is open wherever that one was, whatever the room of the call
  stack. (A call that throws returns no array, and the state array stays as it was.)
\<close>

theorem revealed_is_monotonic:
  "(\<forall>r out. uncoverTile frames b tileStates idx = Inr (r, out) \<longrightarrow>
       length r = length tileStates
       \<and> (\<forall>k<length tileStates. isOpen (tileStates ! k) \<longrightarrow> isOpen (r ! k)))
   \<and> (\<forall>r. toggleFlag tileStates idx = Inr r \<longrightarrow>
       length r = length tileStates
       \<and> (\<forall>k<length tileStates. isOpen (tileStates ! k) \<longrightarrow> isOpen (r ! k)))"
proof (rule conjI; intro allI impI)
  fix r out assume "uncoverTile frames b tileStates idx = Inr (r, out)"
  from uncoverTile_opens[OF this]
  show "length r = length tileStates \<and> (\<forall>k<length tileStates. isOpen (tileStates ! k) \<longrightarrow> isOpen (r ! k))" .
next
  fix r assume "toggleFlag tileStates idx = Inr r"
  then show "length r = length tileStates \<and> (\<forall>k<length tileStates. isOpen (tileStates ! k) \<longrightarrow> isOpen (r ! k))"
    by (auto simp: toggleFlag_def nth_list_update split: if_splits)
qed

theorem revealed_is_monotonic_witness:
  "isOpen ([\<lparr>isOpen = True, isFlagged = False\<rparr>, \<lparr>isOpen = False, isFlagged = False\<rparr>] ! 0)
   \<and> (\<exists>r out. uncoverTile 3 board2x1
                  [\<lparr>isOpen = True, isFlagged = False\<rparr>, \<lparr>isOpen = False, isFlagged = False\<rparr>] 1
                = Inr (r, out) \<and> length r = 2 \<and> isOpen (r ! 0))
   \<and> (\<exists>r. toggleFlag [\<lparr>isOpen = True, isFlagged = False\<rparr>, \<lparr>isOpen = False, isFlagged = False\<rparr>] 0
                = Inr r \<and> length r = 2 \<and> isOpen (r ! 0))"
proof -
  let ?ss = "[\<lparr>isOpen = True, isFlagged = False\<rparr>, \<lparr>isOpen = False, isFlagged = False\<rparr>]"
  have wf: "wellFormed board2x1 ?ss"
    by (simp add: wellFormed_def board2x1_def)
  have "(0::int) \<le> 1" "1 < width board2x1 * height board2x1"
    "nat (width board2x1 * height board2x1) < 3"
    by (simp_all add: board2x1_def)
  from uncoverTile_returns[OF wf this] obtain r out
    where u: "uncoverTile 3 board2x1 ?ss 1 = Inr (r, out)" by blast
  have t: "toggleFlag ?ss 0 = Inr (?ss[0 := \<lparr>isOpen = True, isFlagged = True\<rparr>])"
    by (simp add: toggleFlag_def)
  from revealed_is_monotonic[of 3 board2x1 ?ss 1] u
  have 1: "length r = 2 \<and> isOpen (r ! 0)" by simp
  from revealed_is_monotonic[of 3 board2x1 ?ss 0] t
  have 2: "length (?ss[0 := \<lparr>isOpen = True, isFlagged = True\<rparr>]) = 2
           \<and> isOpen (?ss[0 := \<lparr>isOpen = True, isFlagged = True\<rparr>] ! 0)" by simp
  from u t 1 2 show ?thesis by simp
qed

text \<open>
  C9. The traversal does not end on every board: whatever room the call stack has, on
  the board of one row with at least as many cells of kind empty before the numbered
  cell and the bomb, a board the game can have, the calls of \<^verbatim>\<open>cascade\<close> started at cell
  0 nest deeper than the room, and the traversal stops with
  \<^verbatim>\<open>RangeError: Maximum call stack size exceeded\<close> before it has reached the numbered
  cell. With room for 20000 calls and no cell more, that is the board of 20002 columns.
  (Lemma \<open>cascade_marks_each_cell_once\<close> is what holds of a traversal that returns.)
\<close>

theorem cascade_overflows_call_stack:
  "wellFormed (rowBoard (frames + k)) (initialTileStates (int (frames + k) + 2) 1)
   \<and> cascade frames (rowBoard (frames + k)) (initialTileStates (int (frames + k) + 2) 1) 0
       = Inl RangeError"
  using cascade_row_overflow[of 0 frames "frames + k"] wellFormed_rowBoard[of "frames + k"]
  by (simp add: rowState_fresh)

text \<open>
  C10. On a board with its state array, \<^verbatim>\<open>uncoverTile\<close> and \<^verbatim>\<open>toggleFlag\<close> called with
  an index outside \<open>[0, width * height)\<close> throw (the \<^verbatim>\<open>TypeError\<close> of reading a property
  of \<^verbatim>\<open>undefined\<close>, in \<^verbatim>\<open>toggleFlag\<close> inside the updater it hands to
  \<^verbatim>\<open>setTileStates\<close>): no index is clamped, and no state array is produced.
\<close>

theorem index_out_of_range_fails:
  assumes "wellFormed b tileStates" and "idx < 0 \<or> width b * height b \<le> idx"
  shows "uncoverTile frames b tileStates idx = Inl TypeError \<and> toggleFlag tileStates idx = Inl TypeError"
  using assms by (auto simp: wellFormed_def uncoverTile_def toggleFlag_def)

theorem index_out_of_range_fails_witness:
  "wellFormed board2x1 (initialTileStates 2 1) \<and> (2 < (0::int) \<or> width board2x1 * height board2x1 \<le> 2)
   \<and> uncoverTile 3 board2x1 (initialTileStates 2 1) 2 = Inl TypeError
   \<and> toggleFlag (initialTileStates 2 1) 2 = Inl TypeError"
proof -
  have h: "2 < (0::int) \<or> width board2x1 * height board2x1 \<le> 2"
    by (simp add: board2x1_def)
  from index_out_of_range_fails[OF wellFormed_board2x1 h] wellFormed_board2x1 h
  show ?thesis by simp
qed

end
